theory Spec2Isabelle
  imports Main "HOL-Library.Sublist" "HOL-Library.Monad_Syntax"
begin

section \<open>The database layer of go-sdk/db: connection lifecycle\<close>

text \<open>
  The embedding follows \<^verbatim>\<open>vendor/github.com/blend/go-sdk/db/connection.go\<close>.
  A Go function that returns \<^verbatim>\<open>(value, error)\<close> returns a sum here; a runtime panic
  is a failure of its own, so that "returns an error" and "panics" stay apart.
\<close>

datatype failure =
    Exception string        \<comment> \<open>an error value made by \<^verbatim>\<open>exception.New\<close>\<close>
  | DriverError string      \<comment> \<open>an error value handed back unwrapped\<close>
  | NilPointerPanic         \<comment> \<open>runtime panic: nil pointer dereference\<close>
  | NilMapPanic             \<comment> \<open>runtime panic: assignment to entry in nil map\<close>
  | IndexPanic              \<comment> \<open>runtime panic: index out of range\<close>
  | ReflectPanic            \<comment> \<open>panic raised inside package reflect\<close>

type_synonym handle = nat   \<comment> \<open>the identity of a \<^verbatim>\<open>*sql.DB\<close>\<close>

text \<open>
  The \<^verbatim>\<open>Config\<close> type is declared in another file of the package; the record holds what
  its getters return to \<^verbatim>\<open>openNewSQLConnection\<close>.
\<close>

record Config =
  CreateDSN :: string
  GetMaxLifetime :: int
  GetIdleConnections :: int
  GetMaxConnections :: int
  GetSchema :: string

datatype mutex = Mutex

text \<open>
  The struct \<^verbatim>\<open>Connection\<close>. The fields \<^verbatim>\<open>bufferPool\<close> and \<^verbatim>\<open>log\<close> are read
  by neither \<^verbatim>\<open>Open\<close> nor \<^verbatim>\<open>Close\<close> and are left out. A pointer field is an
  option, \<open>None\<close> being nil. The statement cache type is a parameter.
\<close>

record 'sc Connection =
  connection :: "handle option"
  config :: "Config option"
  connectionLock :: "mutex option"
  statementCacheLock :: "mutex option"
  useStatementCache :: bool
  statementCache :: "'sc option"

text \<open>
  What the database driver is asked to do is kept in a log, in program order. The count
  of \<open>SqlOpen\<close> entries is the number of pools that were created.
\<close>

datatype 'sc event =
    SqlOpen handle string
  | SetConnMaxLifetime handle int
  | SetMaxIdleConns handle int
  | SetMaxOpenConns handle int
  | Exec handle string
  | CacheClose 'sc
  | PoolClose handle

record 'sc world =
  log :: "'sc event list"
  nextHandle :: handle

text \<open>
  How the outside answers during one call: \<open>None\<close> is a nil error, \<open>Some msg\<close> an error.
\<close>

record 'sc driver =
  sqlOpen :: "string \<Rightarrow> string option"
  exec :: "string \<Rightarrow> string option"
  cacheClose :: "'sc \<Rightarrow> string option"
  poolClose :: "handle \<Rightarrow> string option"

definition emit :: "'sc event list \<Rightarrow> 'sc world \<Rightarrow> 'sc world" where
  "emit es w = w\<lparr>log := log w @ es\<rparr>"

definition New :: "bool \<Rightarrow> 'sc Connection" where
  \<comment> \<open>the argument is the constant \<^verbatim>\<open>DefaultUseStatementCache\<close>\<close>
  "New defaultUseStatementCache =
     \<lparr>connection = None,
      config = Some \<lparr>CreateDSN = [], GetMaxLifetime = 0, GetIdleConnections = 0,
                     GetMaxConnections = 0, GetSchema = []\<rparr>,
      connectionLock = Some Mutex,
      statementCacheLock = Some Mutex,
      useStatementCache = defaultUseStatementCache,
      statementCache = None\<rparr>"

definition sanity_stmt :: string where
  \<comment> \<open>the statement text \<^verbatim>\<open>select 'ok!'\<close>\<close>
  "sanity_stmt = ''select '' @ [CHR 0x27] @ ''ok!'' @ [CHR 0x27]"

definition search_path_stmt :: "string \<Rightarrow> string" where
  \<comment> \<open>\<^verbatim>\<open>fmt.Sprintf("SET search_path TO %s,public;", schema)\<close>\<close>
  "search_path_stmt schema = ''SET search_path TO '' @ schema @ '',public;''"

definition sanity_check :: "'sc driver \<Rightarrow> handle \<Rightarrow> 'sc Connection \<Rightarrow> 'sc world \<Rightarrow>
    (failure + handle) \<times> 'sc Connection \<times> 'sc world" where
  \<comment> \<open>the tail of \<^verbatim>\<open>openNewSQLConnection\<close>: the sanity check on the connection\<close>
  "sanity_check d h c w =
     (let w' = emit [Exec h sanity_stmt] w in
      case exec d sanity_stmt of
        Some e \<Rightarrow> (Inl (Exception e), c, w')
      | None \<Rightarrow> (Inr h, c, w'))"

definition openNewSQLConnection ::
    "(handle \<Rightarrow> 'sc) \<Rightarrow> 'sc driver \<Rightarrow> 'sc Connection \<Rightarrow> 'sc world \<Rightarrow>
     (failure + handle) \<times> 'sc Connection \<times> 'sc world" where
  \<comment> \<open>the first argument is \<^verbatim>\<open>newStatementCache\<close>, declared in another file of the package\<close>
  "openNewSQLConnection newStatementCache d c w =
     (case config c of
        None \<Rightarrow> (Inl (Exception ''connection configuration is unset''), c, w)
      | Some cfg \<Rightarrow>
         (case sqlOpen d (CreateDSN cfg) of
            Some e \<Rightarrow> (Inl (Exception e), c, w)
          | None \<Rightarrow>
             (let h = nextHandle w;
                  w1 = (emit [SqlOpen h (CreateDSN cfg)] w)\<lparr>nextHandle := Suc h\<rparr>;
                  c1 = c\<lparr>statementCache := Some (newStatementCache h)\<rparr>;
                  w2 = emit [SetConnMaxLifetime h (GetMaxLifetime cfg),
                             SetMaxIdleConns h (GetIdleConnections cfg),
                             SetMaxOpenConns h (GetMaxConnections cfg)] w1;
                  schema = GetSchema cfg
              in if length schema > 0 then
                   (let stmt = search_path_stmt schema;
                        w3 = emit [Exec h stmt] w2
                    in case exec d stmt of
                         Some e \<Rightarrow> (Inl (Exception e), c1, w3)
                       | None \<Rightarrow> sanity_check d h c1 w3)
                 else sanity_check d h c1 w2)))"

text \<open>
  \<^verbatim>\<open>Open\<close> returns \<^verbatim>\<open>(dbc, nil)\<close> or \<^verbatim>\<open>(nil, err)\<close>; \<open>Inr ()\<close> stands for the
  receiver itself, whose state is the second component. Calls are taken one after the
  other, so the second test of \<^verbatim>\<open>dbc.connection\<close>, made under the lock, reads what the
  first read.
\<close>

definition Open ::
    "(handle \<Rightarrow> 'sc) \<Rightarrow> 'sc driver \<Rightarrow> 'sc Connection \<Rightarrow> 'sc world \<Rightarrow>
     (failure + unit) \<times> 'sc Connection \<times> 'sc world" where
  "Open newStatementCache d c w =
     (if connection c = None then
        (case connectionLock c of
           None \<Rightarrow> (Inl NilPointerPanic, c, w)
         | Some _ \<Rightarrow>
            (if connection c = None then
               (case openNewSQLConnection newStatementCache d c w of
                  (Inl err, c1, w1) \<Rightarrow> (Inl err, c1, w1)
                | (Inr newConn, c1, w1) \<Rightarrow> (Inr (), c1\<lparr>connection := Some newConn\<rparr>, w1))
             else (Inr (), c, w)))
      else (Inr (), c, w))"

text \<open>
  \<^verbatim>\<open>Close\<close>. The method \<^verbatim>\<open>(*sql.DB).Close\<close> locks a mutex of its receiver first, so
  on a nil receiver it panics.
\<close>

definition Close :: "'sc driver \<Rightarrow> 'sc Connection \<Rightarrow> 'sc world \<Rightarrow> (failure + unit) \<times> 'sc world" where
  "Close d c w =
     (let (err, w1) =
            (case statementCache c of
               Some sc \<Rightarrow> (cacheClose d sc, emit [CacheClose sc] w)
             | None \<Rightarrow> (None, w))
      in case err of
           Some e \<Rightarrow> (Inl (DriverError e), w1)
         | None \<Rightarrow>
            (case connection c of
               None \<Rightarrow> (Inl NilPointerPanic, w1)
             | Some h \<Rightarrow>
                (case poolClose d h of
                   Some e \<Rightarrow> (Inl (DriverError e), emit [PoolClose h] w1)
                 | None \<Rightarrow> (Inr (), emit [PoolClose h] w1))))"

fun is_SqlOpen :: "'sc event \<Rightarrow> bool" where
  "is_SqlOpen (SqlOpen h dsn) = True"
| "is_SqlOpen e = False"

fun is_PoolClose :: "'sc event \<Rightarrow> bool" where
  "is_PoolClose (PoolClose h) = True"
| "is_PoolClose e = False"

definition pools_created :: "'sc world \<Rightarrow> nat" where
  "pools_created w = length (filter is_SqlOpen (log w))"

text \<open>Several calls of \<^verbatim>\<open>Open\<close> on one connection, each with the driver's answers.\<close>

fun Open_many ::
    "(handle \<Rightarrow> 'sc) \<Rightarrow> 'sc driver list \<Rightarrow> 'sc Connection \<Rightarrow> 'sc world \<Rightarrow>
     (failure + unit) list \<times> 'sc Connection \<times> 'sc world" where
  "Open_many nsc [] c w = ([], c, w)"
| "Open_many nsc (d # ds) c w =
     (case Open nsc d c w of
        (r, c1, w1) \<Rightarrow> (case Open_many nsc ds c1 w1 of (rs, c2, w2) \<Rightarrow> (r # rs, c2, w2)))"

definition healthy :: "'sc driver" where
  "healthy = \<lparr>sqlOpen = (\<lambda>dsn. None), exec = (\<lambda>stmt. None),
              cacheClose = (\<lambda>sc. None), poolClose = (\<lambda>h. None)\<rparr>"

definition unreachable :: "'sc driver" where
  \<comment> \<open>the handle is made, every statement fails\<close>
  "unreachable = \<lparr>sqlOpen = (\<lambda>dsn. None), exec = (\<lambda>stmt. Some ''connection refused''),
                  cacheClose = (\<lambda>sc. None), poolClose = (\<lambda>h. None)\<rparr>"

text \<open>
  Modelled from the spec: the type \<^verbatim>\<open>StatementCache\<close> and its constructor
  \<^verbatim>\<open>newStatementCache\<close> are declared in another file of the package. The spec describes
  the cache as a mapping from a caller-supplied id to a prepared statement, bound to one
  pooled connection; a new cache holds no statement.
\<close>

datatype StatementCache = StatementCache (boundTo: handle) (statements: "(string \<times> nat) list")

definition newStatementCache :: "handle \<Rightarrow> StatementCache" where
  "newStatementCache h = StatementCache h []"

definition world0 :: "'sc world" where
  "world0 = \<lparr>log = [], nextHandle = 0\<rparr>"

section \<open>Columns and field tags\<close>

text \<open>
  The embedding follows \<^verbatim>\<open>vendor/github.com/blend/go-sdk/db/column_collection.go\<close>.
  A \<^verbatim>\<open>reflect.Type\<close> is a pointer type, a struct type with its fields in declaration
  order, or another named type. Of a field's tag the model keeps what
  \<^verbatim>\<open>field.Tag.Get("db")\<close> returns, the empty string when the key is absent.
\<close>

datatype rtype =
    Ptr rtype
  | Struct string "StructField list"
  | Basic string
and StructField =
    StructField (Name: string) (Type: rtype) (Tag_db: string) (Anonymous: bool)

record Column =
  TableName :: string
  FieldName :: string
  FieldType :: "rtype option"
  ColumnName :: string
  Index :: int
  IsPrimaryKey :: bool
  IsAuto :: bool
  IsNullable :: bool
  IsReadOnly :: bool
  IsJSON :: bool

definition zeroColumn :: Column where
  \<comment> \<open>the zero value \<^verbatim>\<open>Column{}\<close>\<close>
  "zeroColumn = \<lparr>TableName = [], FieldName = [], FieldType = None, ColumnName = [], Index = 0,
     IsPrimaryKey = False, IsAuto = False, IsNullable = False, IsReadOnly = False,
     IsJSON = False\<rparr>"

subsection \<open>The functions of package strings that the parser calls\<close>

text \<open>
  A Go string is its sequence of bytes. \<^verbatim>\<open>strings.ToLower\<close> is modelled on the ASCII
  letters, where it maps \<^verbatim>\<open>A\<close> to \<^verbatim>\<open>Z\<close> onto \<^verbatim>\<open>a\<close> to \<^verbatim>\<open>z\<close> and keeps every other
  byte; statements that depend on it are made for ASCII text.
\<close>

definition lower_char :: "char \<Rightarrow> char" where
  "lower_char c =
     (case map_of (zip ''ABCDEFGHIJKLMNOPQRSTUVWXYZ'' ''abcdefghijklmnopqrstuvwxyz'') c of
        Some l \<Rightarrow> l
      | None \<Rightarrow> c)"

definition ToLower :: "string \<Rightarrow> string" where
  "ToLower s = map lower_char s"

definition is_ascii :: "string \<Rightarrow> bool" where
  "is_ascii s = list_all (\<lambda>c. of_char c < (128::nat)) s"

fun HasPrefix :: "string \<Rightarrow> string \<Rightarrow> bool" where
  "HasPrefix s [] = True"
| "HasPrefix [] (p # ps) = False"
| "HasPrefix (c # cs) (p # ps) = (c = p \<and> HasPrefix cs ps)"

fun Contains :: "string \<Rightarrow> string \<Rightarrow> bool" where
  "Contains [] sub = (sub = [])"
| "Contains (c # cs) sub = (HasPrefix (c # cs) sub \<or> Contains cs sub)"

text \<open>\<^verbatim>\<open>strings.Split\<close> at a separator of one byte; the result is never empty.\<close>

fun Split :: "string \<Rightarrow> char \<Rightarrow> string list" where
  "Split [] sep = [[]]"
| "Split (c # cs) sep =
     (if c = sep then [] # Split cs sep
      else (case Split cs sep of [] \<Rightarrow> [[c]] | p # ps \<Rightarrow> (c # p) # ps))"

fun Join :: "string list \<Rightarrow> string \<Rightarrow> string" where
  "Join [] sep = []"
| "Join [p] sep = p"
| "Join (p # q # ps) sep = p @ sep @ Join (q # ps) sep"

subsection \<open>\<^verbatim>\<open>NewColumnFromFieldTag\<close>\<close>

text \<open>
  The result is a pointer to a new column or nil. \<^verbatim>\<open>pieces[0]\<close> is \<open>hd pieces\<close>: the
  list that \<open>Split\<close> returns has a first element (lemma \<open>Split_not_Nil\<close>).
\<close>

definition NewColumnFromFieldTag :: "StructField \<Rightarrow> Column option" where
  "NewColumnFromFieldTag field =
     (let db = Tag_db field in
      if db \<noteq> ''-'' then
        (let col = zeroColumn\<lparr>FieldName := Name field,
                              ColumnName := ToLower (Name field),
                              FieldType := Some (Type field)\<rparr>
         in if db \<noteq> [] then
              (let pieces = Split db CHR '','';
                   col1 = (if \<not> HasPrefix db '','' then col\<lparr>ColumnName := hd pieces\<rparr> else col)
               in if length pieces \<ge> 1 then
                    (let args = ToLower (Join (drop 1 pieces) '','')
                     in Some (col1\<lparr>IsPrimaryKey := Contains args ''pk'',
                                    IsAuto := Contains args ''serial'' \<or> Contains args ''auto'',
                                    IsReadOnly := Contains args ''readonly'',
                                    IsNullable := Contains args ''nullable'',
                                    IsJSON := Contains args ''json''\<rparr>))
                  else Some col1)
            else Some col)
      else None)"

section \<open>\<^verbatim>\<open>Column.SetValue\<close>\<close>

text \<open>
  \<^verbatim>\<open>SetValue\<close> works through package reflect. A valid \<^verbatim>\<open>reflect.Value\<close> is modelled by
  its type, what it holds, and its flags \<^verbatim>\<open>CanAddr\<close> and \<^verbatim>\<open>CanSet\<close>; the zero Value,
  for which \<^verbatim>\<open>IsValid\<close> is false, is \<open>None\<close>. The helper \<^verbatim>\<open>reflectValue\<close> is declared
  in another file of the package: the arguments of the model are what it returns for
  \<^verbatim>\<open>object\<close> and for \<^verbatim>\<open>value\<close>.
\<close>

datatype gval =
    GInt int
  | GString string
  | GNullString string bool     \<comment> \<open>\<^verbatim>\<open>sql.NullString{String, Valid}\<close>\<close>
  | GNil                        \<comment> \<open>a nil pointer\<close>
  | GPointer gval               \<comment> \<open>a pointer to a variable that holds the value\<close>

record Value =
  vType :: rtype
  vContent :: gval
  vCanAddr :: bool
  vCanSet :: bool

datatype objValue =
    StructValue "string \<rightharpoonup> Value"    \<comment> \<open>a struct, with its fields by name\<close>
  | OtherValue                      \<comment> \<open>a Value of any other kind\<close>

text \<open>
  What reflect and encoding/json decide is a parameter: which types are assignable,
  what a conversion returns (\<open>None\<close> when reflect panics because the types do not convert)
  and what decoding a JSON text into a field leaves there (or the error).
\<close>

record reflect_sem =
  AssignableTo :: "rtype \<Rightarrow> rtype \<Rightarrow> bool"
  Convert :: "Value \<Rightarrow> rtype \<Rightarrow> Value option"
  Unmarshal :: "string \<Rightarrow> Value \<Rightarrow> string + gval"

fun is_Ptr :: "rtype \<Rightarrow> bool" where
  "is_Ptr (Ptr t) = True"
| "is_Ptr t = False"

fun Elem :: "rtype \<Rightarrow> rtype option" where
  "Elem (Ptr t) = Some t"
| "Elem t = None"

definition Addr :: "Value \<Rightarrow> Value" where
  \<comment> \<open>\<^verbatim>\<open>v.Addr()\<close>, called on addressable values only\<close>
  "Addr v = \<lparr>vType = Ptr (vType v), vContent = GPointer (vContent v),
             vCanAddr = False, vCanSet = False\<rparr>"

definition field_Set ::
    "reflect_sem \<Rightarrow> (string \<rightharpoonup> Value) \<Rightarrow> string \<Rightarrow> Value \<Rightarrow> Value \<Rightarrow> failure + objValue" where
  \<comment> \<open>\<^verbatim>\<open>field.Set(x)\<close> on a settable field: reflect panics unless the type of \<open>x\<close> is assignable\<close>
  "field_Set R fs name field x =
     (if AssignableTo R (vType x) (vType field)
      then Inr (StructValue (fs(name \<mapsto> field\<lparr>vContent := vContent x\<rparr>)))
      else Inl ReflectPanic)"

definition cant_set_msg :: "string \<Rightarrow> string" where
  "cant_set_msg fieldName =
     ''hit a field we can'' @ [CHR 0x27] @ ''t set: '' @ [CHR 0x27] @ fieldName @ [CHR 0x27] @
     '', did you forget to pass the object as a reference?''"

definition SetValue :: "reflect_sem \<Rightarrow> Column \<Rightarrow> objValue \<Rightarrow> Value option \<Rightarrow> failure + objValue" where
  "SetValue R c objValue valueReflected =
     (case objValue of
        OtherValue \<Rightarrow> Inl ReflectPanic
      | StructValue fs \<Rightarrow>
         (case fs (FieldName c) of
            None \<Rightarrow> Inl ReflectPanic
          | Some field \<Rightarrow>
             (let fieldType = vType field in
              if \<not> vCanSet field then Inl (Exception (cant_set_msg (FieldName c)))
              else
                (case valueReflected of
                   None \<Rightarrow> Inr objValue
                 | Some v \<Rightarrow>
                    if IsJSON c then
                      (case vContent v of
                         GNullString str valid \<Rightarrow>
                           if valid \<and> length str > 0 then
                             (case Unmarshal R str field of
                                Inl jsonErr \<Rightarrow> Inl (Exception jsonErr)
                              | Inr decoded \<Rightarrow>
                                  Inr (StructValue (fs(FieldName c \<mapsto> field\<lparr>vContent := decoded\<rparr>))))
                           else Inr objValue
                       | _ \<Rightarrow> Inr objValue)
                    else if AssignableTo R (vType v) fieldType then
                      (if is_Ptr fieldType \<and> vCanAddr v
                       then field_Set R fs (FieldName c) field (Addr v)
                       else field_Set R fs (FieldName c) field v)
                    else if is_Ptr fieldType then
                      (if vCanAddr v then
                         (if Elem fieldType = Some (vType v)
                          then field_Set R fs (FieldName c) field (Addr v)
                          else
                            (case Elem fieldType of
                               None \<Rightarrow> Inl ReflectPanic
                             | Some elemType \<Rightarrow>
                                (case Convert R v elemType of
                                   None \<Rightarrow> Inl ReflectPanic
                                 | Some convertedValue \<Rightarrow>
                                    if vCanAddr convertedValue
                                    then field_Set R fs (FieldName c) field (Addr convertedValue)
                                    else Inr objValue)))
                       else Inl (Exception ''cannot take address of value''))
                    else
                      (case Convert R v fieldType of
                         None \<Rightarrow> Inl ReflectPanic
                       | Some convertedValue \<Rightarrow>
                           field_Set R fs (FieldName c) field convertedValue)))))"

definition reflect_ok :: "reflect_sem \<Rightarrow> bool" where
  \<comment> \<open>two facts of package \<^verbatim>\<open>reflect\<close>: a type is assignable to itself, and
      \<^verbatim>\<open>Convert\<close>, when it returns, returns a value of the type asked for\<close>
  "reflect_ok R = ((\<forall>t. AssignableTo R t t) \<and>
                   (\<forall>v t cv. Convert R v t = Some cv \<longrightarrow> vType cv = t))"

text \<open>
  An instance for examples: identical types are assignable, \<^verbatim>\<open>int\<close> and \<^verbatim>\<open>int64\<close>
  convert into each other, the result of a conversion is not addressable, and no JSON
  text decodes.
\<close>

definition numeric :: "rtype \<Rightarrow> bool" where
  "numeric t = (t = Basic ''int'' \<or> t = Basic ''int64'')"

definition reflect_example :: reflect_sem where
  "reflect_example =
     \<lparr>AssignableTo = (\<lambda>s t. s = t),
      Convert = (\<lambda>v t. if numeric (vType v) \<and> numeric t
                        then Some \<lparr>vType = t, vContent = vContent v, vCanAddr = False, vCanSet = False\<rparr>
                        else None),
      Unmarshal = (\<lambda>text target. Inl ''invalid character'')\<rparr>"

section \<open>Column collections in memory\<close>

text \<open>
  A \<^verbatim>\<open>*ColumnCollection\<close> is a pointer, a \<^verbatim>\<open>[]Column\<close> shares its backing array with
  every slice made from it, a map is a reference, and the lookup holds pointers to
  columns. The model keeps these in a store, so that what one collection writes can be
  seen through another. Addresses are handed out in increasing order from \<open>fresh\<close>.

  A function of the store returns an option: \<open>None\<close> is a runtime panic (a nil
  dereference, a write to a nil map, an index out of range).
\<close>

type_synonym addr = nat

record slice =
  sl_arr :: "addr option"     \<comment> \<open>the backing array, \<open>None\<close> for a nil slice\<close>
  sl_len :: nat
  sl_cap :: nat

definition nilSlice :: slice where
  "nilSlice = \<lparr>sl_arr = None, sl_len = 0, sl_cap = 0\<rparr>"

datatype colptr =
    ElemPtr addr nat      \<comment> \<open>\<^verbatim>\<open>&columns[i]\<close>: element \<open>i\<close> of an array\<close>
  | VarPtr addr           \<comment> \<open>\<^verbatim>\<open>&c\<close>: a variable of type \<^verbatim>\<open>Column\<close>\<close>

record ColumnCollection =
  columns :: slice
  lookup :: "addr option"
  columnPrefix :: string
  autos :: "addr option"
  notAutos :: "addr option"
  readOnly :: "addr option"
  notReadOnly :: "addr option"
  primaryKeys :: "addr option"
  notPrimaryKeys :: "addr option"
  writeColumns :: "addr option"
  updateColumns :: "addr option"

text \<open>
  When \<^verbatim>\<open>append\<close> has to allocate, the runtime chooses the new capacity: it holds the
  new length at least, and \<open>spare\<close> gives how much more, from the old capacity.
\<close>

record heap =
  arrays :: "addr \<rightharpoonup> Column list"
  vars :: "addr \<rightharpoonup> Column"
  maps :: "addr \<rightharpoonup> (string \<rightharpoonup> colptr)"
  objs :: "addr \<rightharpoonup> ColumnCollection"
  fresh :: addr
  spare :: "nat \<Rightarrow> nat"

definition new_array :: "heap \<Rightarrow> Column list \<Rightarrow> addr \<times> heap" where
  "new_array h xs = (fresh h, h\<lparr>arrays := (arrays h)(fresh h \<mapsto> xs), fresh := Suc (fresh h)\<rparr>)"

definition new_var :: "heap \<Rightarrow> Column \<Rightarrow> addr \<times> heap" where
  "new_var h c = (fresh h, h\<lparr>vars := (vars h)(fresh h \<mapsto> c), fresh := Suc (fresh h)\<rparr>)"

definition new_map :: "heap \<Rightarrow> addr \<times> heap" where
  "new_map h = (fresh h, h\<lparr>maps := (maps h)(fresh h \<mapsto> Map.empty), fresh := Suc (fresh h)\<rparr>)"

definition new_obj :: "heap \<Rightarrow> ColumnCollection \<Rightarrow> addr \<times> heap" where
  "new_obj h cc = (fresh h, h\<lparr>objs := (objs h)(fresh h \<mapsto> cc), fresh := Suc (fresh h)\<rparr>)"

definition upd_obj :: "heap \<Rightarrow> addr \<Rightarrow> (ColumnCollection \<Rightarrow> ColumnCollection) \<Rightarrow> heap option" where
  \<comment> \<open>a write to a field through the pointer\<close>
  "upd_obj h p f = (case objs h p of None \<Rightarrow> None | Some cc \<Rightarrow> Some (h\<lparr>objs := (objs h)(p \<mapsto> f cc)\<rparr>))"

definition map_store :: "heap \<Rightarrow> addr option \<Rightarrow> string \<Rightarrow> colptr \<Rightarrow> heap option" where
  \<comment> \<open>\<^verbatim>\<open>m[key] = ptr\<close>: a nil map panics\<close>
  "map_store h lk key ptr =
     (case lk of
        None \<Rightarrow> None
      | Some a \<Rightarrow> (case maps h a of None \<Rightarrow> None
                   | Some m \<Rightarrow> Some (h\<lparr>maps := (maps h)(a \<mapsto> m(key \<mapsto> ptr))\<rparr>)))"


subsection \<open>Slices\<close>

definition slice_elems :: "heap \<Rightarrow> slice \<Rightarrow> Column list option" where
  \<comment> \<open>the elements that the slice shows\<close>
  "slice_elems h s =
     (case sl_arr s of
        None \<Rightarrow> (if sl_len s = 0 then Some [] else None)
      | Some a \<Rightarrow> (case arrays h a of None \<Rightarrow> None
                   | Some xs \<Rightarrow> if sl_len s \<le> length xs then Some (take (sl_len s) xs) else None))"

definition slice_get :: "heap \<Rightarrow> slice \<Rightarrow> nat \<Rightarrow> Column option" where
  \<comment> \<open>\<^verbatim>\<open>s[i]\<close>\<close>
  "slice_get h s i =
     (if i < sl_len s then
        (case sl_arr s of
           None \<Rightarrow> None
         | Some a \<Rightarrow> (case arrays h a of None \<Rightarrow> None
                      | Some xs \<Rightarrow> if i < length xs then Some (xs ! i) else None))
      else None)"

definition slice_set :: "heap \<Rightarrow> slice \<Rightarrow> nat \<Rightarrow> Column \<Rightarrow> heap option" where
  \<comment> \<open>\<^verbatim>\<open>s[i] = c\<close>\<close>
  "slice_set h s i c =
     (if i < sl_len s then
        (case sl_arr s of
           None \<Rightarrow> None
         | Some a \<Rightarrow> (case arrays h a of None \<Rightarrow> None
                      | Some xs \<Rightarrow> if i < length xs
                                   then Some (h\<lparr>arrays := (arrays h)(a \<mapsto> xs[i := c])\<rparr>)
                                   else None))
      else None)"

definition elem_ptr :: "slice \<Rightarrow> nat \<Rightarrow> colptr option" where
  \<comment> \<open>\<^verbatim>\<open>&s[i]\<close>\<close>
  "elem_ptr s i =
     (if i < sl_len s then (case sl_arr s of None \<Rightarrow> None | Some a \<Rightarrow> Some (ElemPtr a i)) else None)"

definition append_col :: "heap \<Rightarrow> slice \<Rightarrow> Column \<Rightarrow> (slice \<times> heap) option" where
  \<comment> \<open>\<^verbatim>\<open>append(s, c)\<close>: in place while the capacity lasts, into a new array after\<close>
  "append_col h s c =
     (if sl_len s < sl_cap s then
        (case sl_arr s of
           None \<Rightarrow> None
         | Some a \<Rightarrow> (case arrays h a of None \<Rightarrow> None
                      | Some xs \<Rightarrow>
                         if sl_len s < length xs
                         then Some (s\<lparr>sl_len := Suc (sl_len s)\<rparr>,
                                    h\<lparr>arrays := (arrays h)(a \<mapsto> xs[sl_len s := c])\<rparr>)
                         else None))
      else
        (case slice_elems h s of
           None \<Rightarrow> None
         | Some old \<Rightarrow>
            (let extra = spare h (sl_cap s);
                 (a, h') = new_array h (old @ [c] @ replicate extra zeroColumn)
             in Some (\<lparr>sl_arr = Some a, sl_len = Suc (sl_len s), sl_cap = Suc (sl_len s) + extra\<rparr>,
                      h'))))"

definition deref :: "heap \<Rightarrow> colptr \<Rightarrow> Column option" where
  "deref h ptr =
     (case ptr of
        ElemPtr a i \<Rightarrow> (case arrays h a of None \<Rightarrow> None
                        | Some xs \<Rightarrow> if i < length xs then Some (xs ! i) else None)
      | VarPtr a \<Rightarrow> vars h a)"

subsection \<open>Loops\<close>

text \<open>
  A counting loop and a \<^verbatim>\<open>range\<close> loop over a slice run their body for the indices
  \<open>[0..<n]\<close> in turn, \<open>n\<close> being read once before the loop; a panic in the body ends the
  loop.
\<close>

fun for_each :: "('a \<Rightarrow> 's \<Rightarrow> 's option) \<Rightarrow> 'a list \<Rightarrow> 's \<Rightarrow> 's option" where
  "for_each body [] s = Some s"
| "for_each body (x # xs) s = (case body x s of None \<Rightarrow> None | Some s' \<Rightarrow> for_each body xs s')"

subsection \<open>Constructors\<close>

definition emptyCollection :: ColumnCollection where
  \<comment> \<open>the zero value \<^verbatim>\<open>ColumnCollection{}\<close>\<close>
  "emptyCollection =
     \<lparr>columns = nilSlice, lookup = None, columnPrefix = [], autos = None, notAutos = None,
      readOnly = None, notReadOnly = None, primaryKeys = None, notPrimaryKeys = None,
      writeColumns = None, updateColumns = None\<rparr>"

definition newColumnCollectionWithPrefix :: "heap \<Rightarrow> string \<Rightarrow> addr \<times> heap" where
  "newColumnCollectionWithPrefix h pfx =
     (let (lk, h1) = new_map h
      in new_obj h1 (emptyCollection\<lparr>lookup := Some lk, columnPrefix := pfx\<rparr>))"

definition index_columns :: "slice \<Rightarrow> addr \<Rightarrow> nat \<Rightarrow> heap \<Rightarrow> heap option" where
  \<comment> \<open>the loop body \<^verbatim>\<open>col := &columns[i]; lookup[col.ColumnName] = col\<close>\<close>
  "index_columns cols lk i h =
     do { col \<leftarrow> elem_ptr cols i;
          c \<leftarrow> deref h col;
          map_store h (Some lk) (ColumnName c) col }"

definition newColumnCollectionWithPrefixFromColumns ::
    "heap \<Rightarrow> string \<Rightarrow> slice \<Rightarrow> (addr \<times> heap) option" where
  "newColumnCollectionWithPrefixFromColumns h pfx cols =
     (let (cc, h1) = new_obj h (emptyCollection\<lparr>columns := cols, columnPrefix := pfx\<rparr>);
          (lk, h2) = new_map h1
      in do { h3 \<leftarrow> for_each (index_columns cols lk) [0..<sl_len cols] h2;
              h4 \<leftarrow> upd_obj h3 cc (\<lambda>obj. obj\<lparr>lookup := Some lk\<rparr>);
              Some (cc, h4) })"

definition newColumnCollectionFromColumns :: "heap \<Rightarrow> slice \<Rightarrow> (addr \<times> heap) option" where
  "newColumnCollectionFromColumns h cols =
     (let (cc, h1) = new_obj h (emptyCollection\<lparr>columns := cols\<rparr>);
          (lk, h2) = new_map h1
      in do { h3 \<leftarrow> for_each (index_columns cols lk) [0..<sl_len cols] h2;
              h4 \<leftarrow> upd_obj h3 cc (\<lambda>obj. obj\<lparr>lookup := Some lk\<rparr>);
              Some (cc, h4) })"

subsection \<open>Methods\<close>

definition Len :: "heap \<Rightarrow> addr \<Rightarrow> nat option" where
  "Len h p = do { cc \<leftarrow> objs h p; Some (sl_len (columns cc)) }"

definition Columns :: "heap \<Rightarrow> addr \<Rightarrow> Column list option" where
  \<comment> \<open>the elements of the slice that \<^verbatim>\<open>Columns()\<close> returns\<close>
  "Columns h p = do { cc \<leftarrow> objs h p; slice_elems h (columns cc) }"

definition Add :: "heap \<Rightarrow> addr \<Rightarrow> Column \<Rightarrow> heap option" where
  "Add h p c =
     do { cc \<leftarrow> objs h p;
          (s, h1) \<leftarrow> append_col h (columns cc) c;
          h2 \<leftarrow> upd_obj h1 p (\<lambda>obj. obj\<lparr>columns := s\<rparr>);
          cc2 \<leftarrow> objs h2 p;
          (let (v, h3) = new_var h2 c
           in map_store h3 (lookup cc2) (ColumnName c) (VarPtr v)) }"



definition HasColumn :: "heap \<Rightarrow> addr \<Rightarrow> string \<Rightarrow> bool option" where
  \<comment> \<open>reading a nil map finds nothing\<close>
  "HasColumn h p columnName =
     do { cc \<leftarrow> objs h p;
          (case lookup cc of
             None \<Rightarrow> Some False
           | Some lk \<Rightarrow> do { m \<leftarrow> maps h lk; Some (m columnName \<noteq> None) }) }"



text \<open>
  The six subset methods differ in the test and in the field that keeps the result.
  Their common part makes the new collection and runs the loop
  \<^verbatim>\<open>for _, c := range cc.columns { if test(c) { newCC.Add(c) } }\<close>.
\<close>

definition add_if :: "(Column \<Rightarrow> bool) \<Rightarrow> slice \<Rightarrow> addr \<Rightarrow> nat \<Rightarrow> heap \<Rightarrow> heap option" where
  "add_if test cols newCC i h =
     do { c \<leftarrow> slice_get h cols i;
          if test c then Add h newCC c else Some h }"

definition subset_of :: "heap \<Rightarrow> addr \<Rightarrow> (Column \<Rightarrow> bool) \<Rightarrow> (addr \<times> heap) option" where
  "subset_of h p test =
     do { cc \<leftarrow> objs h p;
          (let (newCC, h1) = newColumnCollectionWithPrefix h (columnPrefix cc)
           in do { h2 \<leftarrow> for_each (add_if test (columns cc) newCC) [0..<sl_len (columns cc)] h1;
                   Some (newCC, h2) }) }"

definition PrimaryKeys :: "heap \<Rightarrow> addr \<Rightarrow> (addr \<times> heap) option" where
  "PrimaryKeys h p =
     do { cc \<leftarrow> objs h p;
          (case primaryKeys cc of
             Some memo \<Rightarrow> Some (memo, h)
           | None \<Rightarrow>
              do { (newCC, h1) \<leftarrow> subset_of h p IsPrimaryKey;
                   h2 \<leftarrow> upd_obj h1 p (\<lambda>obj. obj\<lparr>primaryKeys := Some newCC\<rparr>);
                   Some (newCC, h2) }) }"

definition NotPrimaryKeys :: "heap \<Rightarrow> addr \<Rightarrow> (addr \<times> heap) option" where
  "NotPrimaryKeys h p =
     do { cc \<leftarrow> objs h p;
          (case notPrimaryKeys cc of
             Some memo \<Rightarrow> Some (memo, h)
           | None \<Rightarrow>
              do { (newCC, h1) \<leftarrow> subset_of h p (\<lambda>c. \<not> IsPrimaryKey c);
                   h2 \<leftarrow> upd_obj h1 p (\<lambda>obj. obj\<lparr>notPrimaryKeys := Some newCC\<rparr>);
                   Some (newCC, h2) }) }"

definition Autos :: "heap \<Rightarrow> addr \<Rightarrow> (addr \<times> heap) option" where
  "Autos h p =
     do { cc \<leftarrow> objs h p;
          (case autos cc of
             Some memo \<Rightarrow> Some (memo, h)
           | None \<Rightarrow>
              do { (newCC, h1) \<leftarrow> subset_of h p IsAuto;
                   h2 \<leftarrow> upd_obj h1 p (\<lambda>obj. obj\<lparr>autos := Some newCC\<rparr>);
                   Some (newCC, h2) }) }"

definition NotAutos :: "heap \<Rightarrow> addr \<Rightarrow> (addr \<times> heap) option" where
  "NotAutos h p =
     do { cc \<leftarrow> objs h p;
          (case notAutos cc of
             Some memo \<Rightarrow> Some (memo, h)
           | None \<Rightarrow>
              do { (newCC, h1) \<leftarrow> subset_of h p (\<lambda>c. \<not> IsAuto c);
                   h2 \<leftarrow> upd_obj h1 p (\<lambda>obj. obj\<lparr>notAutos := Some newCC\<rparr>);
                   Some (newCC, h2) }) }"

definition ReadOnly :: "heap \<Rightarrow> addr \<Rightarrow> (addr \<times> heap) option" where
  "ReadOnly h p =
     do { cc \<leftarrow> objs h p;
          (case readOnly cc of
             Some memo \<Rightarrow> Some (memo, h)
           | None \<Rightarrow>
              do { (newCC, h1) \<leftarrow> subset_of h p IsReadOnly;
                   h2 \<leftarrow> upd_obj h1 p (\<lambda>obj. obj\<lparr>readOnly := Some newCC\<rparr>);
                   Some (newCC, h2) }) }"

definition NotReadOnly :: "heap \<Rightarrow> addr \<Rightarrow> (addr \<times> heap) option" where
  "NotReadOnly h p =
     do { cc \<leftarrow> objs h p;
          (case notReadOnly cc of
             Some memo \<Rightarrow> Some (memo, h)
           | None \<Rightarrow>
              do { (newCC, h1) \<leftarrow> subset_of h p (\<lambda>c. \<not> IsReadOnly c);
                   h2 \<leftarrow> upd_obj h1 p (\<lambda>obj. obj\<lparr>notReadOnly := Some newCC\<rparr>);
                   Some (newCC, h2) }) }"

definition copy_elem :: "slice \<Rightarrow> slice \<Rightarrow> nat \<Rightarrow> nat \<Rightarrow> heap \<Rightarrow> heap option" where
  \<comment> \<open>the loop body \<^verbatim>\<open>total[off+i] = src[i]\<close>\<close>
  "copy_elem src tot off i h =
     do { c \<leftarrow> slice_get h src i;
          slice_set h tot (off + i) c }"

definition ConcatWith :: "heap \<Rightarrow> addr \<Rightarrow> addr \<Rightarrow> (addr \<times> heap) option" where
  "ConcatWith h p other =
     do { cc \<leftarrow> objs h p;
          oc \<leftarrow> objs h other;
          (let n = sl_len (columns cc);
               m = sl_len (columns oc);
               (a, h1) = new_array h (replicate (n + m) zeroColumn);
               tot = \<lparr>sl_arr = Some a, sl_len = n + m, sl_cap = n + m\<rparr>
           in do { h2 \<leftarrow> for_each (copy_elem (columns cc) tot 0) [0..<n] h1;
                   h3 \<leftarrow> for_each (copy_elem (columns oc) tot n) [0..<m] h2;
                   newColumnCollectionFromColumns h3 tot }) }"

definition WriteColumns :: "heap \<Rightarrow> addr \<Rightarrow> (addr \<times> heap) option" where
  "WriteColumns h p =
     do { cc \<leftarrow> objs h p;
          (case writeColumns cc of
             Some memo \<Rightarrow> Some (memo, h)
           | None \<Rightarrow>
              do { (nro, h1) \<leftarrow> NotReadOnly h p;
                   (w, h2) \<leftarrow> NotPrimaryKeys h1 nro;
                   h3 \<leftarrow> upd_obj h2 p (\<lambda>obj. obj\<lparr>writeColumns := Some w\<rparr>);
                   Some (w, h3) }) }"

definition UpdateColumns :: "heap \<Rightarrow> addr \<Rightarrow> (addr \<times> heap) option" where
  "UpdateColumns h p =
     do { cc \<leftarrow> objs h p;
          (case updateColumns cc of
             Some memo \<Rightarrow> Some (memo, h)
           | None \<Rightarrow>
              do { (nro, h1) \<leftarrow> NotReadOnly h p;
                   (w, h2) \<leftarrow> NotPrimaryKeys h1 nro;
                   (pk, h3) \<leftarrow> PrimaryKeys h2 p;
                   (u, h4) \<leftarrow> ConcatWith h3 w pk;
                   h5 \<leftarrow> upd_obj h4 p (\<lambda>obj. obj\<lparr>updateColumns := Some u\<rparr>);
                   Some (u, h5) }) }"

subsection \<open>The metadata cache\<close>

fun strip_ptr :: "rtype \<Rightarrow> rtype" where
  \<comment> \<open>\<^verbatim>\<open>for t.Kind() == reflect.Ptr { t = t.Elem() }\<close>\<close>
  "strip_ptr (Ptr t) = strip_ptr t"
| "strip_ptr t = t"

definition add_field :: "string \<Rightarrow> nat \<times> StructField \<Rightarrow> slice \<times> heap \<Rightarrow> (slice \<times> heap) option" where
  \<comment> \<open>the loop body of \<^verbatim>\<open>generateColumnCollectionForType\<close>\<close>
  "add_field tableName ixf st =
     (case (ixf, st) of ((index, field), (cols, h)) \<Rightarrow>
        if \<not> Anonymous field then
          (case NewColumnFromFieldTag field of
             Some col \<Rightarrow> append_col h cols (col\<lparr>Index := int index, TableName := tableName\<rparr>)
           | None \<Rightarrow> Some (cols, h))
        else Some (cols, h))"

text \<open>
  \<^verbatim>\<open>TableNameByType\<close> is declared in another file of the package and is the first argument.
  \<^verbatim>\<open>t.NumField()\<close> panics on a type that is not a struct.
\<close>

definition generateColumnCollectionForType ::
    "(rtype \<Rightarrow> string) \<Rightarrow> heap \<Rightarrow> rtype \<Rightarrow> (addr \<times> heap) option" where
  "generateColumnCollectionForType tableNameByType h t =
     (case strip_ptr t of
        Struct name flds \<Rightarrow>
          do { (cols, h1) \<leftarrow>
                 for_each (add_field (tableNameByType (strip_ptr t))) (enumerate 0 flds) (nilSlice, h);
               newColumnCollectionFromColumns h1 cols }
      | _ \<Rightarrow> None)"

text \<open>
  The package variables: the store, the map \<^verbatim>\<open>metaCache\<close> (nil at first), and a log
  that is not in the program: \<open>built\<close> lists, in order, the identifiers for which
  \<^verbatim>\<open>generateColumnCollectionForType\<close> returned a collection. The mutex is held for
  the whole body, so calls are taken one after the other.
\<close>

record db_state =
  store :: heap
  metaCache :: "(string \<rightharpoonup> addr) option"
  built :: "string list"

definition getCachedColumnCollectionFromType ::
    "(rtype \<Rightarrow> string) \<Rightarrow> db_state \<Rightarrow> string \<Rightarrow> rtype \<Rightarrow> addr option \<times> db_state" where
  "getCachedColumnCollectionFromType tableNameByType st identifier t =
     (let cache = (case metaCache st of None \<Rightarrow> Map.empty | Some m \<Rightarrow> m);
          st1 = st\<lparr>metaCache := Some cache\<rparr>
      in case cache identifier of
           None \<Rightarrow>
             (case generateColumnCollectionForType tableNameByType (store st1) t of
                None \<Rightarrow> (None, st1)
              | Some (metadata, h) \<Rightarrow>
                  (Some metadata,
                   st1\<lparr>store := h, metaCache := Some (cache(identifier \<mapsto> metadata)),
                       built := built st1 @ [identifier]\<rparr>))
         | Some cachedMeta \<Rightarrow> (Some cachedMeta, st1))"

fun resolve_all ::
    "(rtype \<Rightarrow> string) \<Rightarrow> db_state \<Rightarrow> (string \<times> rtype) list \<Rightarrow> addr option list \<times> db_state" where
  "resolve_all tn st [] = ([], st)"
| "resolve_all tn st ((identifier, t) # calls) =
     (case getCachedColumnCollectionFromType tn st identifier t of
        (r, st1) \<Rightarrow> (case resolve_all tn st1 calls of (rs, st2) \<Rightarrow> (r # rs, st2)))"

text \<open>An empty store whose \<^verbatim>\<open>append\<close> doubles the capacity: 1, 2, 4, 8.\<close>

definition heap0 :: heap where
  "heap0 = \<lparr>arrays = Map.empty, vars = Map.empty, maps = Map.empty, objs = Map.empty,
            fresh = 0, spare = (\<lambda>cap. cap - 1)\<rparr>"

definition state0 :: db_state where
  "state0 = \<lparr>store = heap0, metaCache = None, built = []\<rparr>"

subsection \<open>The struct of the package's tests\<close>

definition subStruct :: rtype where
  "subStruct = Struct ''db.subStruct'' [StructField ''Foo'' (Basic ''string'') [] False]"

definition myStruct :: rtype where
  \<comment> \<open>\<^verbatim>\<open>myStruct\<close> of \<^verbatim>\<open>column_collection_test.go\<close>, with the \<^verbatim>\<open>db\<close> tags\<close>
  "myStruct = Struct ''db.myStruct''
     [StructField ''PrimaryKeyCol'' (Basic ''int'') ''primary_key_column,pk,serial'' False,
      StructField ''AutoCol'' (Basic ''string'') ''auto_column,auto'' False,
      StructField ''InferredName'' (Basic ''string'') [] False,
      StructField ''Excluded'' (Basic ''string'') ''-'' False,
      StructField ''NullableCol'' (Basic ''string'') ''nullable,nullable'' False,
      StructField ''InferredWithFlags'' (Basic ''string'') '',readonly'' False,
      StructField ''BigIntColumn'' (Basic ''int64'') ''big_int'' False,
      StructField ''PointerColumn'' (Ptr (Basic ''int'')) ''pointer_col'' False,
      StructField ''JSONColumn'' subStruct ''json_col,json'' False]"

definition testTableName :: "rtype \<Rightarrow> string" where
  \<comment> \<open>\<^verbatim>\<open>myStruct.TableName()\<close> returns \<^verbatim>\<open>my_struct\<close>\<close>
  "testTableName t = (if t = myStruct then ''my_struct'' else [])"

subsection \<open>Well-formed slices and the fields that become columns\<close>

text \<open>
  A slice of a running program is nil, with length and capacity zero, or views an array
  that exists, up to a length within its capacity, the capacity reaching the array's end.
\<close>

definition slice_ok :: "heap \<Rightarrow> slice \<Rightarrow> bool" where
  "slice_ok h s =
     (case sl_arr s of
        None \<Rightarrow> sl_len s = 0 \<and> sl_cap s = 0
      | Some a \<Rightarrow> (case arrays h a of None \<Rightarrow> False
                   | Some xs \<Rightarrow> sl_cap s = length xs \<and> sl_len s \<le> sl_cap s))"

text \<open>
  A field is excluded when it is embedded or its descriptor is \<^verbatim>\<open>-\<close>. The column
  that the loop of \<^verbatim>\<open>generateColumnCollectionForType\<close> appends for a field, if any:
\<close>

definition included :: "StructField \<Rightarrow> bool" where
  "included f = (\<not> Anonymous f \<and> Tag_db f \<noteq> ''-'')"

definition field_column :: "string \<Rightarrow> nat \<times> StructField \<Rightarrow> Column option" where
  "field_column tableName ixf =
     (case ixf of (index, field) \<Rightarrow>
        if Anonymous field then None
        else map_option (\<lambda>col. col\<lparr>Index := int index, TableName := tableName\<rparr>)
               (NewColumnFromFieldTag field))"

subsection \<open>What the cache holds\<close>

definition cached :: "db_state \<Rightarrow> string \<Rightarrow> addr option" where
  \<comment> \<open>\<^verbatim>\<open>metaCache[identifier]\<close>; reading a nil map finds nothing\<close>
  "cached st identifier = (case metaCache st of None \<Rightarrow> None | Some m \<Rightarrow> m identifier)"

definition cache_inv :: "db_state \<Rightarrow> bool" where
  \<comment> \<open>the log lists each cached identifier once, and no other\<close>
  "cache_inv st = (distinct (built st) \<and> (\<forall>k. k \<in> set (built st) \<longleftrightarrow> cached st k \<noteq> None))"

subsection \<open>Well-formed collections and what a caller can observe\<close>

text \<open>
  A pointer that a lookup holds is in order for a collection when it points below
  \<open>fresh\<close> and, if it points into the collection's own backing array, at an element
  that the collection's slice shows.
\<close>

definition ptr_ok :: "heap \<Rightarrow> slice \<Rightarrow> colptr \<Rightarrow> bool" where
  "ptr_ok h s ptr =
     (case ptr of
        VarPtr v \<Rightarrow> v < fresh h
      | ElemPtr a i \<Rightarrow> a < fresh h \<and> (sl_arr s = Some a \<longrightarrow> i < sl_len s))"

definition cc_ok :: "heap \<Rightarrow> addr \<Rightarrow> bool" where
  "cc_ok h p =
     (case objs h p of
        None \<Rightarrow> False
      | Some cc \<Rightarrow>
          p < fresh h \<and> slice_ok h (columns cc) \<and>
          (case sl_arr (columns cc) of None \<Rightarrow> True | Some a \<Rightarrow> a < fresh h) \<and>
          (case lookup cc of
             None \<Rightarrow> True
           | Some lk \<Rightarrow>
               lk < fresh h \<and>
               (case maps h lk of
                  None \<Rightarrow> False
                | Some m \<Rightarrow> \<forall>ptr \<in> ran m. ptr_ok h (columns cc) ptr)))"

definition no_memo :: "ColumnCollection \<Rightarrow> bool" where
  \<comment> \<open>no derived subset has been computed\<close>
  "no_memo cc =
     (autos cc = None \<and> notAutos cc = None \<and> readOnly cc = None \<and> notReadOnly cc = None \<and>
      primaryKeys cc = None \<and> notPrimaryKeys cc = None \<and> writeColumns cc = None \<and>
      updateColumns cc = None)"

definition writable :: "Column \<Rightarrow> bool" where
  "writable c = (\<not> IsReadOnly c \<and> \<not> IsPrimaryKey c)"



subsection \<open>Mutations of a collection\<close>




subsection \<open>What an operation leaves alone\<close>

text \<open>
  \<open>preserves b A n h h'\<close>: between the stores \<open>h\<close> and \<open>h'\<close> nothing at an address below
  \<open>b\<close> has changed, but that the array \<open>A\<close> may differ beyond its first \<open>n\<close> elements.
\<close>

definition same_prefix :: "nat \<Rightarrow> Column list option \<Rightarrow> Column list option \<Rightarrow> bool" where
  "same_prefix n old new =
     (case old of
        None \<Rightarrow> new = None
      | Some xs \<Rightarrow> (case new of None \<Rightarrow> False
                    | Some ys \<Rightarrow> length ys = length xs \<and> take n ys = take n xs))"

definition preserves :: "addr \<Rightarrow> addr option \<Rightarrow> nat \<Rightarrow> heap \<Rightarrow> heap \<Rightarrow> bool" where
  "preserves b A n h h' =
     (fresh h \<le> fresh h' \<and> spare h' = spare h \<and>
      (\<forall>a<b. vars h' a = vars h a \<and> maps h' a = maps h a \<and> objs h' a = objs h a \<and>
              (if A = Some a then same_prefix n (arrays h a) (arrays h' a)
               else arrays h' a = arrays h a)))"

text \<open>
  \<open>slice_owned b A n h s\<close>: the slice is well formed and views an array made at or
  after \<open>b\<close>, or the array \<open>A\<close> from a length of at least \<open>n\<close>. \<open>owned b A n h q\<close>:
  the collection \<open>q\<close> and its lookup were made at or after \<open>b\<close>, and its slice is
  owned in this sense.
\<close>

definition slice_owned :: "addr \<Rightarrow> addr option \<Rightarrow> nat \<Rightarrow> heap \<Rightarrow> slice \<Rightarrow> bool" where
  "slice_owned b A n h s =
     (slice_ok h s \<and>
      (case sl_arr s of
         None \<Rightarrow> True
       | Some a \<Rightarrow> a < fresh h \<and> (b \<le> a \<or> (A = Some a \<and> n \<le> sl_len s))))"

definition owned :: "addr \<Rightarrow> addr option \<Rightarrow> nat \<Rightarrow> heap \<Rightarrow> addr \<Rightarrow> bool" where
  "owned b A n h q =
     (case objs h q of
        None \<Rightarrow> False
      | Some cc \<Rightarrow>
          b \<le> q \<and> q < fresh h \<and> slice_owned b A n h (columns cc) \<and>
          (case lookup cc of
             None \<Rightarrow> False
           | Some lk \<Rightarrow> b \<le> lk \<and> lk < fresh h \<and> maps h lk \<noteq> None))"

text \<open>
  \<open>has_cols h p xs\<close>: the collection \<open>p\<close> was made before \<open>fresh\<close>, its slice is well
  formed, views an array made before \<open>fresh\<close>, and shows the columns \<open>xs\<close>.
\<close>

definition has_cols :: "heap \<Rightarrow> addr \<Rightarrow> Column list \<Rightarrow> bool" where
  "has_cols h p xs =
     (case objs h p of
        None \<Rightarrow> False
      | Some cc \<Rightarrow>
          p < fresh h \<and> slice_ok h (columns cc) \<and>
          (case sl_arr (columns cc) of None \<Rightarrow> True | Some a \<Rightarrow> a < fresh h) \<and>
          slice_elems h (columns cc) = Some xs)"

subsection \<open>Memoized subsets that are up to date\<close>

text \<open>
  A field that memoizes a subset is in order for the columns \<open>ys\<close> when it is not set
  or points at a collection that shows \<open>ys\<close>. For a collection \<open>p\<close> with the columns
  \<open>xs\<close>: \<open>write_memo\<close>, \<open>update_memo\<close> and \<open>keys_memo\<close> say this of the fields
  \<^verbatim>\<open>writeColumns\<close>, \<^verbatim>\<open>updateColumns\<close> and \<^verbatim>\<open>primaryKeys\<close>; \<open>nro_memo\<close> says it of
  the field \<^verbatim>\<open>notReadOnly\<close> and, when that is set, of the field \<^verbatim>\<open>notPrimaryKeys\<close>
  of the collection it points at, which is another collection than \<open>p\<close>.
\<close>

definition memo_shows :: "heap \<Rightarrow> addr option \<Rightarrow> Column list \<Rightarrow> bool" where
  "memo_shows h memo ys = (case memo of None \<Rightarrow> True | Some q \<Rightarrow> has_cols h q ys)"

definition write_memo :: "heap \<Rightarrow> addr \<Rightarrow> Column list \<Rightarrow> bool" where
  "write_memo h p xs =
     (case objs h p of
        None \<Rightarrow> False
      | Some cc \<Rightarrow> memo_shows h (writeColumns cc) (filter writable xs))"

definition update_memo :: "heap \<Rightarrow> addr \<Rightarrow> Column list \<Rightarrow> bool" where
  "update_memo h p xs =
     (case objs h p of
        None \<Rightarrow> False
      | Some cc \<Rightarrow> memo_shows h (updateColumns cc) (filter writable xs @ filter IsPrimaryKey xs))"

definition keys_memo :: "heap \<Rightarrow> addr \<Rightarrow> Column list \<Rightarrow> bool" where
  "keys_memo h p xs =
     (case objs h p of
        None \<Rightarrow> False
      | Some cc \<Rightarrow> memo_shows h (primaryKeys cc) (filter IsPrimaryKey xs))"

definition nro_memo :: "heap \<Rightarrow> addr \<Rightarrow> Column list \<Rightarrow> bool" where
  "nro_memo h p xs =
     (case objs h p of
        None \<Rightarrow> False
      | Some cc \<Rightarrow>
          (case notReadOnly cc of
             None \<Rightarrow> True
           | Some q \<Rightarrow>
               q \<noteq> p \<and> has_cols h q (filter (\<lambda>c. \<not> IsReadOnly c) xs) \<and>
               (case objs h q of
                  None \<Rightarrow> False
                | Some cq \<Rightarrow> memo_shows h (notPrimaryKeys cq) (filter writable xs))))"

text \<open>
  What a call reads. \<^verbatim>\<open>WriteColumns\<close> returns its own field when that is set, and
  calls \<^verbatim>\<open>NotReadOnly().NotPrimaryKeys()\<close> otherwise; \<^verbatim>\<open>UpdateColumns\<close> returns its
  own field when that is set, and calls these two and \<^verbatim>\<open>PrimaryKeys()\<close> otherwise.
  \<open>write_ready\<close> and \<open>update_ready\<close>: the memoized subsets that the call will read are
  in order. \<open>memo_ok\<close>: all of them are.
\<close>

definition write_ready :: "heap \<Rightarrow> addr \<Rightarrow> Column list \<Rightarrow> bool" where
  "write_ready h p xs =
     (case objs h p of
        None \<Rightarrow> False
      | Some cc \<Rightarrow>
          (case writeColumns cc of
             Some w \<Rightarrow> has_cols h w (filter writable xs)
           | None \<Rightarrow> nro_memo h p xs))"

definition update_ready :: "heap \<Rightarrow> addr \<Rightarrow> Column list \<Rightarrow> bool" where
  "update_ready h p xs =
     (case objs h p of
        None \<Rightarrow> False
      | Some cc \<Rightarrow>
          (case updateColumns cc of
             Some u \<Rightarrow> has_cols h u (filter writable xs @ filter IsPrimaryKey xs)
           | None \<Rightarrow> nro_memo h p xs \<and> keys_memo h p xs))"

definition memo_ok :: "heap \<Rightarrow> addr \<Rightarrow> Column list \<Rightarrow> bool" where
  "memo_ok h p xs =
     (write_memo h p xs \<and> update_memo h p xs \<and> keys_memo h p xs \<and> nro_memo h p xs)"

text \<open>
  \<open>cols_kept h h'\<close>: between the stores \<open>h\<close> and \<open>h'\<close> no array made before was changed
  and every collection made before has kept its slice. \<open>memo_kept h h' p xs\<close>: moreover
  \<open>p\<close> still shows \<open>xs\<close> and each memoized subset that was in order still is.
\<close>

definition cols_kept :: "heap \<Rightarrow> heap \<Rightarrow> bool" where
  "cols_kept h h' =
     (fresh h \<le> fresh h' \<and>
      (\<forall>a<fresh h. arrays h' a = arrays h a \<and>
         (case objs h a of
            None \<Rightarrow> True
          | Some cc \<Rightarrow> (case objs h' a of None \<Rightarrow> False
                        | Some cc' \<Rightarrow> columns cc' = columns cc))))"

definition memo_kept :: "heap \<Rightarrow> heap \<Rightarrow> addr \<Rightarrow> Column list \<Rightarrow> bool" where
  "memo_kept h h' p xs =
     (has_cols h' p xs \<and> cols_kept h h' \<and>
      (write_memo h p xs \<longrightarrow> write_memo h' p xs) \<and>
      (update_memo h p xs \<longrightarrow> update_memo h' p xs) \<and>
      (keys_memo h p xs \<longrightarrow> keys_memo h' p xs) \<and>
      (nro_memo h p xs \<longrightarrow> nro_memo h' p xs))"

text \<open>The eight subset methods, and a sequence of calls of them on one collection.\<close>

datatype subset_call =
    CallAutos | CallNotAutos | CallReadOnly | CallNotReadOnly
  | CallPrimaryKeys | CallNotPrimaryKeys | CallWriteColumns | CallUpdateColumns

fun run_call :: "heap \<Rightarrow> addr \<Rightarrow> subset_call \<Rightarrow> (addr \<times> heap) option" where
  "run_call h p CallAutos = Autos h p"
| "run_call h p CallNotAutos = NotAutos h p"
| "run_call h p CallReadOnly = ReadOnly h p"
| "run_call h p CallNotReadOnly = NotReadOnly h p"
| "run_call h p CallPrimaryKeys = PrimaryKeys h p"
| "run_call h p CallNotPrimaryKeys = NotPrimaryKeys h p"
| "run_call h p CallWriteColumns = WriteColumns h p"
| "run_call h p CallUpdateColumns = UpdateColumns h p"

fun run_calls :: "heap \<Rightarrow> addr \<Rightarrow> subset_call list \<Rightarrow> heap option" where
  "run_calls h p [] = Some h"
| "run_calls h p (m # ms) =
     (case run_call h p m of None \<Rightarrow> None | Some (q, h') \<Rightarrow> run_calls h' p ms)"

subsection \<open>Example runs\<close>

definition fooColumn :: Column where
  \<comment> \<open>the column of the one field of \<^verbatim>\<open>subStruct\<close>\<close>
  "fooColumn = zeroColumn\<lparr>FieldName := ''Foo'', FieldType := Some (Basic ''string''),
                          ColumnName := ''foo''\<rparr>"

definition extraColumn :: Column where
  "extraColumn = zeroColumn\<lparr>ColumnName := ''extra''\<rparr>"

text \<open>
  Resolve \<^verbatim>\<open>subStruct\<close>, ask for the write columns, add a column, ask again: the
  columns of the second answer, and the columns of the collection.
\<close>

definition write_add_write :: "(Column list option \<times> Column list option) option" where
  "write_add_write =
     do { (p, h) \<leftarrow> generateColumnCollectionForType testTableName heap0 subStruct;
          (w, h1) \<leftarrow> WriteColumns h p;
          h2 \<leftarrow> Add h1 p extraColumn;
          (w2, h3) \<leftarrow> WriteColumns h2 p;
          Some (Columns h3 w2, Columns h3 p) }"

definition int_object :: objValue where
  \<comment> \<open>a struct with a settable field \<^verbatim>\<open>N int\<close>, holding 0\<close>
  "int_object = StructValue [''N'' \<mapsto> \<lparr>vType = Basic ''int'', vContent = GInt 0,
                                          vCanAddr = True, vCanSet = True\<rparr>]"

definition pointer_object :: objValue where
  \<comment> \<open>a struct with a settable field \<^verbatim>\<open>P *int\<close>, holding nil\<close>
  "pointer_object = StructValue [''P'' \<mapsto> \<lparr>vType = Ptr (Basic ''int''), vContent = GNil,
                                              vCanAddr = True, vCanSet = True\<rparr>]"

section \<open>Connection lifecycle: properties\<close>

lemma Open_opened: "connection c = Some h \<Longrightarrow> Open nsc d c w = (Inr (), c, w)"
  by (simp add: Open_def)

lemma Open_many_opened:
  "connection c = Some h \<Longrightarrow> Open_many nsc ds c w = (replicate (length ds) (Inr ()), c, w)"
  by (induction ds) (simp_all add: Open_opened)

lemma pools_created_nextHandle [simp]:
  "pools_created (w\<lparr>nextHandle := n\<rparr>) = pools_created w"
  by (simp add: pools_created_def)

lemma openNew_success:
  assumes "openNewSQLConnection nsc d c w = (Inr h, c', w')"
  shows "h = nextHandle w \<and> c' = c\<lparr>statementCache := Some (nsc h)\<rparr> \<and>
         pools_created w' = Suc (pools_created w) \<and> nextHandle w' = Suc (nextHandle w)"
  using assms
  by (auto simp: openNewSQLConnection_def sanity_check_def Let_def pools_created_def
           emit_def split: option.splits if_splits)

text \<open>
  Claim C7, as the code has it. Once a call of \<^verbatim>\<open>Open\<close> has succeeded, the pool
  handle is set and stays: every later call, whatever the driver would answer, returns
  the receiver with no failure, leaves the connection as it is and asks nothing of the
  driver, so no pool is created. The successful call itself either found the handle set
  and did nothing, or created exactly one pool and installed the handle it got.
\<close>

theorem Open_idempotent_after_success:
  assumes "Open nsc d c w = (Inr (), c', w')"
  shows "(\<exists>h. connection c' = Some h) \<and>
         Open nsc d2 c' w2 = (Inr (), c', w2) \<and>
         Open_many nsc ds c' w2 = (replicate (length ds) (Inr ()), c', w2) \<and>
         (if connection c = None
          then connection c' = Some (nextHandle w) \<and> pools_created w' = Suc (pools_created w)
          else c' = c \<and> w' = w)"
proof (cases "connection c")
  case (Some h)
  with assms have "c' = c" "w' = w" by (simp_all add: Open_opened)
  with Some show ?thesis by (simp add: Open_opened Open_many_opened)
next
  case None
  from assms None obtain h c1 where
    o: "openNewSQLConnection nsc d c w = (Inr h, c1, w')" and c': "c' = c1\<lparr>connection := Some h\<rparr>"
    by (auto simp: Open_def split: option.splits prod.splits sum.splits)
  from openNew_success [OF o] c' None show ?thesis
    by (simp add: Open_opened Open_many_opened)
qed

theorem Open_idempotent_after_success_witness:
  "Open newStatementCache healthy (New True) world0 =
     (Inr (), (New True)\<lparr>connection := Some 0, statementCache := Some (StatementCache 0 [])\<rparr>,
      \<lparr>log = [SqlOpen 0 [], SetConnMaxLifetime 0 0, SetMaxIdleConns 0 0, SetMaxOpenConns 0 0,
               Exec 0 sanity_stmt], nextHandle = 1\<rparr>)
   \<and> Open newStatementCache unreachable
        ((New True)\<lparr>connection := Some 0, statementCache := Some (StatementCache 0 [])\<rparr>) world0 =
      (Inr (), (New True)\<lparr>connection := Some 0, statementCache := Some (StatementCache 0 [])\<rparr>, world0)"
proof -
  have o: "Open newStatementCache healthy (New True) world0 =
     (Inr (), (New True)\<lparr>connection := Some 0, statementCache := Some (StatementCache 0 [])\<rparr>,
      \<lparr>log = [SqlOpen 0 [], SetConnMaxLifetime 0 0, SetMaxIdleConns 0 0, SetMaxOpenConns 0 0,
               Exec 0 sanity_stmt], nextHandle = 1\<rparr>)"
    by (simp add: Open_def openNewSQLConnection_def sanity_check_def New_def healthy_def
        world0_def emit_def newStatementCache_def)
  from Open_idempotent_after_success [OF o, of unreachable world0 "[]"]
  have "Open newStatementCache unreachable
        ((New True)\<lparr>connection := Some 0, statementCache := Some (StatementCache 0 [])\<rparr>) world0 =
      (Inr (), (New True)\<lparr>connection := Some 0, statementCache := Some (StatementCache 0 [])\<rparr>, world0)"
    by blast
  with o show ?thesis by blast
qed

text \<open>
  Claim C7 as stated says that the pool is created at most once per connection. A
  first \<^verbatim>\<open>Open\<close> whose sanity check fails has made a pool and dropped it; the next
  \<^verbatim>\<open>Open\<close> on the same connection makes a second one.
\<close>

theorem Open_pool_created_twice:
  "\<not> pools_created (snd (snd (Open_many newStatementCache [unreachable, healthy] (New True) world0))) \<le> 1"
  by (simp add: Open_def openNewSQLConnection_def sanity_check_def New_def healthy_def
      unreachable_def world0_def emit_def newStatementCache_def pools_created_def)

text \<open>
  Claim C8. On a connection that has a statement cache, \<^verbatim>\<open>Close\<close> closes the cache
  first. If that returns an error, \<^verbatim>\<open>Close\<close> returns this very error and the log
  shows the cache's close alone: the pool's close was not attempted. Otherwise the pool's
  close follows the cache's in the log.
\<close>

theorem Close_cache_before_pool:
  assumes "statementCache c = Some sc"
  shows "(case cacheClose d sc of
            Some e \<Rightarrow> Close d c w = (Inl (DriverError e), w\<lparr>log := log w @ [CacheClose sc]\<rparr>)
          | None \<Rightarrow>
             (case connection c of
                Some h \<Rightarrow> log (snd (Close d c w)) = log w @ [CacheClose sc, PoolClose h]
              | None \<Rightarrow> log (snd (Close d c w)) = log w @ [CacheClose sc]))"
  using assms by (simp add: Close_def emit_def split: option.splits)


theorem Close_cache_before_pool_witness:
  "Close (healthy\<lparr>cacheClose := (\<lambda>sc. Some ''statement is closed'')\<rparr>)
         ((New True)\<lparr>connection := Some 0, statementCache := Some (StatementCache 0 [])\<rparr>) world0 =
     (Inl (DriverError ''statement is closed''), \<lparr>log = [CacheClose (StatementCache 0 [])], nextHandle = 0\<rparr>)
   \<and> log (snd (Close healthy
         ((New True)\<lparr>connection := Some 0, statementCache := Some (StatementCache 0 [])\<rparr>) world0)) =
       [CacheClose (StatementCache 0 []), PoolClose 0]"
  using Close_cache_before_pool [of "(New True)\<lparr>connection := Some 0, statementCache := Some (StatementCache 0 [])\<rparr>"
      "StatementCache 0 []" "healthy\<lparr>cacheClose := (\<lambda>sc. Some ''statement is closed'')\<rparr>" world0]
    Close_cache_before_pool [of "(New True)\<lparr>connection := Some 0, statementCache := Some (StatementCache 0 [])\<rparr>"
      "StatementCache 0 []" healthy world0]
  by (simp add: New_def healthy_def world0_def)

text \<open>
  Claim C10. On a connection whose statement cache and pool handle are both nil,
  \<^verbatim>\<open>Close\<close> returns no error value: it skips the cache, calls \<^verbatim>\<open>Close\<close> on the nil
  handle and panics with a nil pointer dereference, the driver left untouched.
\<close>

theorem Close_unopened_panics:
  "statementCache c = None \<Longrightarrow> connection c = None \<Longrightarrow> Close d c w = (Inl NilPointerPanic, w)"
  by (simp add: Close_def)

theorem Close_unopened_panics_witness:
  "Close healthy (New True :: StatementCache Connection) world0 = (Inl NilPointerPanic, world0)"
  using Close_unopened_panics [of "New True :: StatementCache Connection" healthy world0]
  by (simp add: New_def)

lemma sanity_check_result:
  "\<exists>r. sanity_check d h c w = (r, c, emit [Exec h sanity_stmt] w) \<and>
       (case exec d sanity_stmt of None \<Rightarrow> r = Inr h | Some e \<Rightarrow> r = Inl (Exception e))"
  by (simp add: sanity_check_def Let_def split: option.splits)

lemma filter_SqlOpen_emit_Exec [simp]:
  "filter is_SqlOpen (log (emit [Exec h s] w)) = filter is_SqlOpen (log w)"
  by (simp add: emit_def)

lemma nextHandle_emit [simp]: "nextHandle (emit es w) = nextHandle w"
  by (simp add: emit_def)

lemma openNew_after_handle:
  assumes cfg: "config c = Some cfg" and ok: "sqlOpen d (CreateDSN cfg) = None"
  shows "\<exists>r w'. openNewSQLConnection nsc d c w =
            (r, c\<lparr>statementCache := Some (nsc (nextHandle w))\<rparr>, w') \<and>
          filter is_SqlOpen (log w') =
            filter is_SqlOpen (log w) @ [SqlOpen (nextHandle w) (CreateDSN cfg)] \<and>
          nextHandle w' = Suc (nextHandle w) \<and>
          (r = Inr (nextHandle w) \<or> (\<exists>e. r = Inl (Exception e))) \<and>
          ((GetSchema cfg \<noteq> [] \<and> exec d (search_path_stmt (GetSchema cfg)) \<noteq> None)
             \<or> exec d sanity_stmt \<noteq> None \<longrightarrow> (\<exists>e. r = Inl (Exception e)))"
proof -
  let ?h = "nextHandle w"
  let ?c1 = "c\<lparr>statementCache := Some (nsc ?h)\<rparr>"
  let ?w2 = "emit [SetConnMaxLifetime ?h (GetMaxLifetime cfg),
                   SetMaxIdleConns ?h (GetIdleConnections cfg),
                   SetMaxOpenConns ?h (GetMaxConnections cfg)]
               ((emit [SqlOpen ?h (CreateDSN cfg)] w)\<lparr>nextHandle := Suc ?h\<rparr>)"
  have w2: "filter is_SqlOpen (log ?w2) = filter is_SqlOpen (log w) @ [SqlOpen ?h (CreateDSN cfg)]"
           "nextHandle ?w2 = Suc ?h"
    by (simp_all add: emit_def)
  show ?thesis
  proof (cases "GetSchema cfg = []")
    case True
    then have eq: "openNewSQLConnection nsc d c w = sanity_check d ?h ?c1 ?w2"
      using cfg ok by (simp add: openNewSQLConnection_def Let_def)
    from sanity_check_result [of d ?h ?c1 ?w2] obtain r where
      r: "sanity_check d ?h ?c1 ?w2 = (r, ?c1, emit [Exec ?h sanity_stmt] ?w2)"
         "case exec d sanity_stmt of None \<Rightarrow> r = Inr ?h | Some e \<Rightarrow> r = Inl (Exception e)"
      by blast
    show ?thesis
      using eq r w2 True by (cases "exec d sanity_stmt") auto
  next
    case False
    let ?stmt = "search_path_stmt (GetSchema cfg)"
    let ?w3 = "emit [Exec ?h ?stmt] ?w2"
    have w3: "filter is_SqlOpen (log ?w3) = filter is_SqlOpen (log w) @ [SqlOpen ?h (CreateDSN cfg)]"
             "nextHandle ?w3 = Suc ?h"
      using w2 by simp_all
    show ?thesis
    proof (cases "exec d ?stmt")
      case (Some e)
      then have "openNewSQLConnection nsc d c w = (Inl (Exception e), ?c1, ?w3)"
        using cfg ok False by (simp add: openNewSQLConnection_def Let_def)
      with w3 show ?thesis by simp
    next
      case None
      then have eq: "openNewSQLConnection nsc d c w = sanity_check d ?h ?c1 ?w3"
        using cfg ok False by (simp add: openNewSQLConnection_def Let_def)
      from sanity_check_result [of d ?h ?c1 ?w3] obtain r where
        r: "sanity_check d ?h ?c1 ?w3 = (r, ?c1, emit [Exec ?h sanity_stmt] ?w3)"
           "case exec d sanity_stmt of None \<Rightarrow> r = Inr ?h | Some e \<Rightarrow> r = Inl (Exception e)"
        by blast
      show ?thesis
        using eq r w3 None by (cases "exec d sanity_stmt") auto
    qed
  qed
qed

lemma Open_unopened:
  "connection c = None \<Longrightarrow> connectionLock c = Some m \<Longrightarrow>
   openNewSQLConnection nsc d c w = (r, c1, w1) \<Longrightarrow>
   Open nsc d c w = (case r of Inl err \<Rightarrow> (Inl err, c1, w1)
                     | Inr newConn \<Rightarrow> (Inr (), c1\<lparr>connection := Some newConn\<rparr>, w1))"
  by (simp add: Open_def split: sum.splits)

text \<open>
  Claim C9. When the driver handle is made and the schema statement or the sanity check
  then fails, \<^verbatim>\<open>Open\<close> returns an error, the pool handle stays nil, and the only
  change to the connection is that its statement cache is now the one made for the
  abandoned handle. A later \<^verbatim>\<open>Open\<close> for which the driver makes a handle creates
  another pool, and replaces the statement cache again.
\<close>

theorem Open_failure_keeps_statementCache:
  assumes "connection c = None" and "connectionLock c = Some m" and "config c = Some cfg"
    and "sqlOpen d (CreateDSN cfg) = None"
    and "(GetSchema cfg \<noteq> [] \<and> exec d (search_path_stmt (GetSchema cfg)) \<noteq> None)
         \<or> exec d sanity_stmt \<noteq> None"
  shows "(case Open nsc d c w of (r, c', w') \<Rightarrow>
            (\<exists>e. r = Inl (Exception e)) \<and>
            connection c' = None \<and>
            statementCache c' = Some (nsc (nextHandle w)) \<and>
            c' = c\<lparr>statementCache := Some (nsc (nextHandle w))\<rparr> \<and>
            filter is_SqlOpen (log w') =
              filter is_SqlOpen (log w) @ [SqlOpen (nextHandle w) (CreateDSN cfg)] \<and>
            (sqlOpen d2 (CreateDSN cfg) = None \<longrightarrow>
               pools_created (snd (snd (Open nsc d2 c' w'))) = Suc (pools_created w') \<and>
               statementCache (fst (snd (Open nsc d2 c' w'))) = Some (nsc (Suc (nextHandle w)))))"
proof -
  let ?c1 = "c\<lparr>statementCache := Some (nsc (nextHandle w))\<rparr>"
  from openNew_after_handle [OF assms(3,4), of nsc w] assms(5) obtain e w' where
    o: "openNewSQLConnection nsc d c w = (Inl (Exception e), ?c1, w')"
    and w': "filter is_SqlOpen (log w') =
               filter is_SqlOpen (log w) @ [SqlOpen (nextHandle w) (CreateDSN cfg)]"
            "nextHandle w' = Suc (nextHandle w)"
    by blast
  have first: "Open nsc d c w = (Inl (Exception e), ?c1, w')"
    using Open_unopened [OF assms(1,2) o] by simp
  have retry: "pools_created (snd (snd (Open nsc d2 ?c1 w'))) = Suc (pools_created w') \<and>
        statementCache (fst (snd (Open nsc d2 ?c1 w'))) = Some (nsc (Suc (nextHandle w)))"
    if ok2: "sqlOpen d2 (CreateDSN cfg) = None"
  proof -
    have c1: "connection ?c1 = None" "connectionLock ?c1 = Some m" "config ?c1 = Some cfg"
      using assms(1-3) by simp_all
    from openNew_after_handle [OF c1(3) ok2, of nsc w'] obtain r2 w2 where
      o2: "openNewSQLConnection nsc d2 ?c1 w' = (r2, ?c1\<lparr>statementCache := Some (nsc (nextHandle w'))\<rparr>, w2)"
      and w2: "filter is_SqlOpen (log w2) =
               filter is_SqlOpen (log w') @ [SqlOpen (nextHandle w') (CreateDSN cfg)]"
      by blast
    from Open_unopened [OF c1(1,2) o2] w2 w'(2) show ?thesis
      by (cases r2) (simp_all add: pools_created_def)
  qed
  from first w' assms(1) retry show ?thesis by simp
qed

theorem Open_failure_keeps_statementCache_witness:
  "Open newStatementCache unreachable (New True) world0 =
     (Inl (Exception ''connection refused''),
      (New True)\<lparr>statementCache := Some (StatementCache 0 [])\<rparr>,
      \<lparr>log = [SqlOpen 0 [], SetConnMaxLifetime 0 0, SetMaxIdleConns 0 0, SetMaxOpenConns 0 0,
               Exec 0 sanity_stmt], nextHandle = 1\<rparr>)
   \<and> statementCache (fst (snd (Open newStatementCache healthy
        ((New True)\<lparr>statementCache := Some (StatementCache 0 [])\<rparr>)
        \<lparr>log = [SqlOpen 0 [], SetConnMaxLifetime 0 0, SetMaxIdleConns 0 0, SetMaxOpenConns 0 0,
               Exec 0 sanity_stmt], nextHandle = 1\<rparr>))) = Some (StatementCache 1 [])"
proof -
  let ?cfg = "\<lparr>CreateDSN = [], GetMaxLifetime = 0, GetIdleConnections = 0,
                     GetMaxConnections = 0, GetSchema = []\<rparr>"
  have o: "Open newStatementCache unreachable (New True) world0 =
     (Inl (Exception ''connection refused''),
      (New True)\<lparr>statementCache := Some (StatementCache 0 [])\<rparr>,
      \<lparr>log = [SqlOpen 0 [], SetConnMaxLifetime 0 0, SetMaxIdleConns 0 0, SetMaxOpenConns 0 0,
               Exec 0 sanity_stmt], nextHandle = 1\<rparr>)"
    by (simp add: Open_def openNewSQLConnection_def sanity_check_def New_def unreachable_def
        world0_def emit_def newStatementCache_def)
  have h: "connection (New True :: StatementCache Connection) = None"
     "connectionLock (New True :: StatementCache Connection) = Some Mutex"
     "config (New True :: StatementCache Connection) = Some ?cfg"
     "sqlOpen (unreachable :: StatementCache driver) (CreateDSN ?cfg) = None"
     "(GetSchema ?cfg \<noteq> [] \<and> exec (unreachable :: StatementCache driver) (search_path_stmt (GetSchema ?cfg)) \<noteq> None)
         \<or> exec (unreachable :: StatementCache driver) sanity_stmt \<noteq> None"
    by (simp_all add: New_def unreachable_def)
  from Open_failure_keeps_statementCache [OF h, of newStatementCache world0 healthy] o
  show ?thesis
    by (simp add: healthy_def world0_def newStatementCache_def)
qed

section \<open>Field tags: properties\<close>

lemma Split_not_Nil: "Split s sep \<noteq> []"
  by (induction s) (auto split: list.splits)

lemma HasPrefix_prefix: "HasPrefix s p = prefix p s"
  by (induction s p rule: HasPrefix.induct) auto

lemma Contains_sublist: "Contains s sub = sublist sub s"
  by (induction s) (auto simp: HasPrefix_prefix sublist_Cons_right)

lemma Contains_mid: "Contains (p @ sub @ q) sub"
  by (simp add: Contains_sublist)

lemma Split_no_sep: "sep \<notin> set name \<Longrightarrow> Split name sep = [name]"
  by (induction name) auto

lemma Split_at_first:
  "sep \<notin> set name \<Longrightarrow> Split (name @ sep # rest) sep = name # Split rest sep"
  by (induction name) auto

lemma Join_Split: "Join (Split s sep) [sep] = s"
proof (induction s)
  case Nil
  show ?case by simp
next
  case (Cons c cs)
  obtain p ps where sp: "Split cs sep = p # ps"
    using Split_not_Nil [of cs sep] by (cases "Split cs sep") auto
  with Cons show ?case by (cases ps) auto
qed

lemma Join_mem: "f \<in> set flags \<Longrightarrow> \<exists>p q. Join flags sep = p @ f @ q"
proof (induction flags sep rule: Join.induct)
  case (1 sep)
  then show ?case by simp
next
  case (2 p sep)
  then have "Join [p] sep = [] @ f @ []" by simp
  then show ?case by blast
next
  case (3 p q ps sep)
  show ?case
  proof (cases "f = p")
    case True
    then have "Join (p # q # ps) sep = [] @ f @ (sep @ Join (q # ps) sep)" by simp
    then show ?thesis by blast
  next
    case False
    with 3 obtain a b where "Join (q # ps) sep = a @ f @ b" by auto
    then have "Join (p # q # ps) sep = (p @ sep @ a) @ f @ b" by simp
    then show ?thesis by blast
  qed
qed

lemma Contains_flag:
  assumes "f \<in> set flags" and "ToLower f = flag"
  shows "Contains (ToLower (Join flags sep)) flag"
proof -
  from Join_mem [OF assms(1)] obtain p q where "Join flags sep = p @ f @ q" by blast
  then have "ToLower (Join flags sep) = ToLower p @ flag @ ToLower q"
    using assms(2) by (simp add: ToLower_def)
  then show ?thesis by (simp add: Contains_mid)
qed

lemma HasPrefix_comma: "HasPrefix s '','' = (\<exists>rest. s = CHR '','' # rest)"
  by (cases s) auto

text \<open>The column of a tag with a comma: name before, arguments after.\<close>

lemma NewColumn_with_comma:
  assumes "Tag_db field = name @ CHR '','' # rest" and "CHR '','' \<notin> set name"
  shows "NewColumnFromFieldTag field =
     Some \<lparr>TableName = [], FieldName = Name field, FieldType = Some (Type field),
           ColumnName = (if name = [] then ToLower (Name field) else name), Index = 0,
           IsPrimaryKey = Contains (ToLower rest) ''pk'',
           IsAuto = (Contains (ToLower rest) ''serial'' \<or> Contains (ToLower rest) ''auto''),
           IsNullable = Contains (ToLower rest) ''nullable'',
           IsReadOnly = Contains (ToLower rest) ''readonly'',
           IsJSON = Contains (ToLower rest) ''json''\<rparr>"
proof -
  have sp: "Split (Tag_db field) CHR '','' = name # Split rest CHR '',''"
    using assms by (simp add: Split_at_first)
  have ne: "Tag_db field \<noteq> ''-''" "Tag_db field \<noteq> []"
    using assms by (auto simp: append_eq_Cons_conv)
  have pre: "HasPrefix (Tag_db field) '','' = (name = [])"
    using assms by (cases name) (auto simp: HasPrefix_comma)
  show ?thesis
    unfolding NewColumnFromFieldTag_def Let_def
    using ne pre by (simp add: sp Join_Split zeroColumn_def)
qed

lemma NewColumn_no_comma:
  assumes "Tag_db field = name" and "CHR '','' \<notin> set name" and "name \<noteq> []" and "name \<noteq> ''-''"
  shows "NewColumnFromFieldTag field =
     Some \<lparr>TableName = [], FieldName = Name field, FieldType = Some (Type field),
           ColumnName = name, Index = 0,
           IsPrimaryKey = False, IsAuto = False, IsNullable = False, IsReadOnly = False,
           IsJSON = False\<rparr>"
proof -
  have pre: "\<not> HasPrefix name '',''"
    using assms(2) by (cases name) auto
  show ?thesis
    unfolding NewColumnFromFieldTag_def Let_def
    using assms pre by (simp add: Split_no_sep zeroColumn_def ToLower_def)
qed

text \<open>
  Claim C2. The descriptor \<^verbatim>\<open>name,flag[,flag...]\<close>: the text before the first comma,
  when there is some, is the column name, and a leading comma keeps the lower-cased field
  name; each of the flags \<^verbatim>\<open>pk\<close>, \<^verbatim>\<open>auto\<close> or \<^verbatim>\<open>serial\<close>, \<^verbatim>\<open>readonly\<close>,
  \<^verbatim>\<open>nullable\<close> and \<^verbatim>\<open>json\<close>, in any letter case and at any place among the flags,
  sets its boolean. A descriptor with no comma is a name with no flag. The two examples
  of the specification are evaluated as they stand.
\<close>

theorem NewColumnFromFieldTag_descriptor:
  assumes "is_ascii (Name field)" and "is_ascii (Tag_db field)"
  shows "(Tag_db field = name @ CHR '','' # Join flags '','' \<and> CHR '','' \<notin> set name \<longrightarrow>
          (\<exists>col. NewColumnFromFieldTag field = Some col \<and>
             FieldName col = Name field \<and>
             ColumnName col = (if name = [] then ToLower (Name field) else name) \<and>
             (\<forall>f \<in> set flags.
                (ToLower f = ''pk'' \<longrightarrow> IsPrimaryKey col) \<and>
                (ToLower f = ''auto'' \<or> ToLower f = ''serial'' \<longrightarrow> IsAuto col) \<and>
                (ToLower f = ''readonly'' \<longrightarrow> IsReadOnly col) \<and>
                (ToLower f = ''nullable'' \<longrightarrow> IsNullable col) \<and>
                (ToLower f = ''json'' \<longrightarrow> IsJSON col)))) \<and>
         (Tag_db field = name \<and> CHR '','' \<notin> set name \<and> name \<noteq> [] \<and> name \<noteq> ''-'' \<longrightarrow>
          (\<exists>col. NewColumnFromFieldTag field = Some col \<and> ColumnName col = name \<and>
             \<not> IsPrimaryKey col \<and> \<not> IsAuto col \<and> \<not> IsReadOnly col \<and>
             \<not> IsNullable col \<and> \<not> IsJSON col)) \<and>
         NewColumnFromFieldTag
           (StructField ''PrimaryKeyCol'' (Basic ''int'') ''primary_key_column,pk,serial'' False) =
           Some \<lparr>TableName = [], FieldName = ''PrimaryKeyCol'', FieldType = Some (Basic ''int''),
                 ColumnName = ''primary_key_column'', Index = 0,
                 IsPrimaryKey = True, IsAuto = True, IsNullable = False, IsReadOnly = False,
                 IsJSON = False\<rparr> \<and>
         NewColumnFromFieldTag
           (StructField ''InferredWithFlags'' (Basic ''string'') '',readonly'' False) =
           Some \<lparr>TableName = [], FieldName = ''InferredWithFlags'',
                 FieldType = Some (Basic ''string''),
                 ColumnName = ''inferredwithflags'', Index = 0,
                 IsPrimaryKey = False, IsAuto = False, IsNullable = False, IsReadOnly = True,
                 IsJSON = False\<rparr>"
proof (intro conjI impI)
  assume a: "Tag_db field = name @ CHR '','' # Join flags '','' \<and> CHR '','' \<notin> set name"
  then have col: "NewColumnFromFieldTag field =
     Some \<lparr>TableName = [], FieldName = Name field, FieldType = Some (Type field),
           ColumnName = (if name = [] then ToLower (Name field) else name), Index = 0,
           IsPrimaryKey = Contains (ToLower (Join flags '','')) ''pk'',
           IsAuto = (Contains (ToLower (Join flags '','')) ''serial'' \<or>
                     Contains (ToLower (Join flags '','')) ''auto''),
           IsNullable = Contains (ToLower (Join flags '','')) ''nullable'',
           IsReadOnly = Contains (ToLower (Join flags '','')) ''readonly'',
           IsJSON = Contains (ToLower (Join flags '','')) ''json''\<rparr>"
    by (intro NewColumn_with_comma) simp_all
  show "\<exists>col. NewColumnFromFieldTag field = Some col \<and>
             FieldName col = Name field \<and>
             ColumnName col = (if name = [] then ToLower (Name field) else name) \<and>
             (\<forall>f \<in> set flags.
                (ToLower f = ''pk'' \<longrightarrow> IsPrimaryKey col) \<and>
                (ToLower f = ''auto'' \<or> ToLower f = ''serial'' \<longrightarrow> IsAuto col) \<and>
                (ToLower f = ''readonly'' \<longrightarrow> IsReadOnly col) \<and>
                (ToLower f = ''nullable'' \<longrightarrow> IsNullable col) \<and>
                (ToLower f = ''json'' \<longrightarrow> IsJSON col))"
    unfolding col by (auto simp: Contains_flag simp del: Contains.simps)
next
  assume "Tag_db field = name \<and> CHR '','' \<notin> set name \<and> name \<noteq> [] \<and> name \<noteq> ''-''"
  then have "NewColumnFromFieldTag field =
     Some \<lparr>TableName = [], FieldName = Name field, FieldType = Some (Type field),
           ColumnName = name, Index = 0,
           IsPrimaryKey = False, IsAuto = False, IsNullable = False, IsReadOnly = False,
           IsJSON = False\<rparr>"
    by (intro NewColumn_no_comma) simp_all
  then show "\<exists>col. NewColumnFromFieldTag field = Some col \<and> ColumnName col = name \<and>
             \<not> IsPrimaryKey col \<and> \<not> IsAuto col \<and> \<not> IsReadOnly col \<and>
             \<not> IsNullable col \<and> \<not> IsJSON col"
    by simp
next
  show "NewColumnFromFieldTag
           (StructField ''PrimaryKeyCol'' (Basic ''int'') ''primary_key_column,pk,serial'' False) =
           Some \<lparr>TableName = [], FieldName = ''PrimaryKeyCol'', FieldType = Some (Basic ''int''),
                 ColumnName = ''primary_key_column'', Index = 0,
                 IsPrimaryKey = True, IsAuto = True, IsNullable = False, IsReadOnly = False,
                 IsJSON = False\<rparr>"
    by (simp add: NewColumnFromFieldTag_def Let_def zeroColumn_def ToLower_def lower_char_def)
next
  show "NewColumnFromFieldTag
           (StructField ''InferredWithFlags'' (Basic ''string'') '',readonly'' False) =
           Some \<lparr>TableName = [], FieldName = ''InferredWithFlags'',
                 FieldType = Some (Basic ''string''),
                 ColumnName = ''inferredwithflags'', Index = 0,
                 IsPrimaryKey = False, IsAuto = False, IsNullable = False, IsReadOnly = True,
                 IsJSON = False\<rparr>"
    by (simp add: NewColumnFromFieldTag_def Let_def zeroColumn_def ToLower_def lower_char_def)
qed

theorem NewColumnFromFieldTag_descriptor_witness:
  "is_ascii ''AutoCol'' \<and> is_ascii ''auto_column,Json,AUTO'' \<and>
   (case NewColumnFromFieldTag (StructField ''AutoCol'' (Basic ''string'') ''auto_column,Json,AUTO'' False) of
      Some col \<Rightarrow> ColumnName col = ''auto_column'' \<and> IsAuto col \<and> IsJSON col
    | None \<Rightarrow> False) \<and>
   (case NewColumnFromFieldTag (StructField ''BigIntColumn'' (Basic ''int64'') ''big_int'' False) of
      Some col \<Rightarrow> ColumnName col = ''big_int'' \<and> \<not> IsAuto col \<and> \<not> IsPrimaryKey col
    | None \<Rightarrow> False)"
proof -
  let ?f = "StructField ''AutoCol'' (Basic ''string'') ''auto_column,Json,AUTO'' False"
  let ?g = "StructField ''BigIntColumn'' (Basic ''int64'') ''big_int'' False"
  have f: "is_ascii (Name ?f)" "is_ascii (Tag_db ?f)" and g: "is_ascii (Name ?g)" "is_ascii (Tag_db ?g)"
    by (simp_all add: is_ascii_def)
  have tag: "Tag_db ?f = ''auto_column'' @ CHR '','' # Join [''Json'', ''AUTO''] '','' \<and>
             CHR '','' \<notin> set ''auto_column''"
    by simp
  have tag2: "Tag_db ?g = ''big_int'' \<and> CHR '','' \<notin> set ''big_int'' \<and> ''big_int'' \<noteq> [] \<and>
              ''big_int'' \<noteq> ''-''"
    by simp
  have low: "ToLower ''Json'' = ''json''" "ToLower ''AUTO'' = ''auto''"
    by (simp_all add: ToLower_def lower_char_def)
  from NewColumnFromFieldTag_descriptor [OF f, of "''auto_column''" "[''Json'', ''AUTO'']"] tag low
  have 1: "case NewColumnFromFieldTag ?f of
      Some col \<Rightarrow> ColumnName col = ''auto_column'' \<and> IsAuto col \<and> IsJSON col
    | None \<Rightarrow> False"
    by (auto simp del: Join.simps)
  from NewColumnFromFieldTag_descriptor [OF g, of "''big_int''" "[]"] tag2
  have 2: "case NewColumnFromFieldTag ?g of
      Some col \<Rightarrow> ColumnName col = ''big_int'' \<and> \<not> IsAuto col \<and> \<not> IsPrimaryKey col
    | None \<Rightarrow> False"
    by (auto simp del: Join.simps)
  from 1 2 f show ?thesis by simp
qed

section \<open>\<^verbatim>\<open>Column.SetValue\<close>: properties\<close>

lemma SetValue_cant_set:
  "fs (FieldName c) = Some field \<Longrightarrow> \<not> vCanSet field \<Longrightarrow>
   SetValue R c (StructValue fs) vr = Inl (Exception (cant_set_msg (FieldName c)))"
  by (simp add: SetValue_def)

lemma SetValue_invalid:
  "fs (FieldName c) = Some field \<Longrightarrow> vCanSet field \<Longrightarrow>
   SetValue R c (StructValue fs) None = Inr (StructValue fs)"
  by (simp add: SetValue_def)

lemma SetValue_json:
  "fs (FieldName c) = Some field \<Longrightarrow> vCanSet field \<Longrightarrow> IsJSON c \<Longrightarrow>
   SetValue R c (StructValue fs) (Some v) =
     (case vContent v of
        GNullString str valid \<Rightarrow>
          if valid \<and> str \<noteq> [] then
            (case Unmarshal R str field of
               Inl jsonErr \<Rightarrow> Inl (Exception jsonErr)
             | Inr decoded \<Rightarrow> Inr (StructValue (fs(FieldName c \<mapsto> field\<lparr>vContent := decoded\<rparr>))))
          else Inr (StructValue fs)
      | _ \<Rightarrow> Inr (StructValue fs))"
  by (simp add: SetValue_def split: gval.splits)

lemma SetValue_assignable:
  "fs (FieldName c) = Some field \<Longrightarrow> vCanSet field \<Longrightarrow> \<not> IsJSON c \<Longrightarrow>
   AssignableTo R (vType v) (vType field) \<Longrightarrow>
   SetValue R c (StructValue fs) (Some v) =
     (if is_Ptr (vType field) \<and> vCanAddr v
      then field_Set R fs (FieldName c) field (Addr v)
      else Inr (StructValue (fs(FieldName c \<mapsto> field\<lparr>vContent := vContent v\<rparr>))))"
  by (simp add: SetValue_def field_Set_def)

lemma SetValue_pointer:
  "fs (FieldName c) = Some field \<Longrightarrow> vCanSet field \<Longrightarrow> \<not> IsJSON c \<Longrightarrow>
   \<not> AssignableTo R (vType v) (vType field) \<Longrightarrow> vType field = Ptr elemType \<Longrightarrow>
   SetValue R c (StructValue fs) (Some v) =
     (if \<not> vCanAddr v then Inl (Exception ''cannot take address of value'')
      else if elemType = vType v then field_Set R fs (FieldName c) field (Addr v)
      else (case Convert R v elemType of
              None \<Rightarrow> Inl ReflectPanic
            | Some convertedValue \<Rightarrow>
                if vCanAddr convertedValue
                then field_Set R fs (FieldName c) field (Addr convertedValue)
                else Inr (StructValue fs)))"
  by (simp add: SetValue_def)

lemma SetValue_convert:
  "fs (FieldName c) = Some field \<Longrightarrow> vCanSet field \<Longrightarrow> \<not> IsJSON c \<Longrightarrow>
   \<not> AssignableTo R (vType v) (vType field) \<Longrightarrow> \<not> is_Ptr (vType field) \<Longrightarrow>
   SetValue R c (StructValue fs) (Some v) =
     (case Convert R v (vType field) of
        None \<Rightarrow> Inl ReflectPanic
      | Some convertedValue \<Rightarrow> field_Set R fs (FieldName c) field convertedValue)"
  by (simp add: SetValue_def)

lemma reflect_ok_example: "reflect_ok reflect_example"
  by (simp add: reflect_ok_def reflect_example_def)

text \<open>
  Claim C3, as the code has it, for a field that the struct has. Of package
  \<^verbatim>\<open>reflect\<close> it is assumed that a type is assignable to itself and that
  \<^verbatim>\<open>Convert\<close>, when it does not panic, returns a value of the type asked for.

  A field that cannot be set gives the error of \<^verbatim>\<open>exception.New\<close>, whatever the
  source. An invalid source returns nil and leaves the object as it is. On a JSON column
  no assignment and no conversion is tried: a valid, non-empty \<^verbatim>\<open>sql.NullString\<close> is
  decoded into the field, the decoder's error being returned as the error, and any
  other source returns nil and leaves the object as it is.

  On any other column, a source whose type is assignable is assigned; when the field is
  a pointer and the source is addressable, it is the address of the source that is
  handed to \<^verbatim>\<open>Set\<close>, which assigns it if its type is assignable to the field and
  panics otherwise. A source that is not assignable is, for a field that is not a
  pointer, converted and the converted value is assigned; \<^verbatim>\<open>Convert\<close> panics when the
  types do not convert. For a pointer field, a source that is not assignable and not
  addressable gives the error, and an addressable source of the pointer's element type
  has its address assigned. Nothing is said here of an addressable source of another
  type for a pointer field.
\<close>

theorem SetValue_contract:
  assumes f: "fs (FieldName c) = Some field" and R: "reflect_ok R"
  shows
   "(\<not> vCanSet field \<longrightarrow>
       SetValue R c (StructValue fs) vr = Inl (Exception (cant_set_msg (FieldName c)))) \<and>
    (vCanSet field \<longrightarrow> SetValue R c (StructValue fs) None = Inr (StructValue fs)) \<and>
    (vCanSet field \<and> IsJSON c \<longrightarrow>
       SetValue R c (StructValue fs) (Some v) =
         (case vContent v of
            GNullString str valid \<Rightarrow>
              if valid \<and> str \<noteq> [] then
                (case Unmarshal R str field of
                   Inl jsonErr \<Rightarrow> Inl (Exception jsonErr)
                 | Inr decoded \<Rightarrow>
                     Inr (StructValue (fs(FieldName c \<mapsto> field\<lparr>vContent := decoded\<rparr>))))
              else Inr (StructValue fs)
          | _ \<Rightarrow> Inr (StructValue fs))) \<and>
    (vCanSet field \<and> \<not> IsJSON c \<and> AssignableTo R (vType v) (vType field) \<longrightarrow>
       SetValue R c (StructValue fs) (Some v) =
         (if is_Ptr (vType field) \<and> vCanAddr v then
            (if AssignableTo R (Ptr (vType v)) (vType field)
             then Inr (StructValue (fs(FieldName c \<mapsto> field\<lparr>vContent := GPointer (vContent v)\<rparr>)))
             else Inl ReflectPanic)
          else Inr (StructValue (fs(FieldName c \<mapsto> field\<lparr>vContent := vContent v\<rparr>))))) \<and>
    (vCanSet field \<and> \<not> IsJSON c \<and> \<not> AssignableTo R (vType v) (vType field) \<and>
       \<not> is_Ptr (vType field) \<longrightarrow>
       SetValue R c (StructValue fs) (Some v) =
         (case Convert R v (vType field) of
            None \<Rightarrow> Inl ReflectPanic
          | Some convertedValue \<Rightarrow>
              Inr (StructValue (fs(FieldName c \<mapsto> field\<lparr>vContent := vContent convertedValue\<rparr>))))) \<and>
    (vCanSet field \<and> \<not> IsJSON c \<and> \<not> AssignableTo R (vType v) (vType field) \<and>
       is_Ptr (vType field) \<and> \<not> vCanAddr v \<longrightarrow>
       SetValue R c (StructValue fs) (Some v) = Inl (Exception ''cannot take address of value'')) \<and>
    (vCanSet field \<and> \<not> IsJSON c \<and> \<not> AssignableTo R (vType v) (vType field) \<and>
       vType field = Ptr (vType v) \<and> vCanAddr v \<longrightarrow>
       SetValue R c (StructValue fs) (Some v) =
         Inr (StructValue (fs(FieldName c \<mapsto> field\<lparr>vContent := GPointer (vContent v)\<rparr>))))"
proof (intro conjI impI)
  assume "\<not> vCanSet field"
  with f show "SetValue R c (StructValue fs) vr = Inl (Exception (cant_set_msg (FieldName c)))"
    by (rule SetValue_cant_set)
next
  assume "vCanSet field"
  with f show "SetValue R c (StructValue fs) None = Inr (StructValue fs)"
    by (rule SetValue_invalid)
next
  assume "vCanSet field \<and> IsJSON c"
  then show "SetValue R c (StructValue fs) (Some v) =
         (case vContent v of
            GNullString str valid \<Rightarrow>
              if valid \<and> str \<noteq> [] then
                (case Unmarshal R str field of
                   Inl jsonErr \<Rightarrow> Inl (Exception jsonErr)
                 | Inr decoded \<Rightarrow>
                     Inr (StructValue (fs(FieldName c \<mapsto> field\<lparr>vContent := decoded\<rparr>))))
              else Inr (StructValue fs)
          | _ \<Rightarrow> Inr (StructValue fs))"
    using SetValue_json [of fs c field R v] f by simp
next
  assume "vCanSet field \<and> \<not> IsJSON c \<and> AssignableTo R (vType v) (vType field)"
  then show "SetValue R c (StructValue fs) (Some v) =
         (if is_Ptr (vType field) \<and> vCanAddr v then
            (if AssignableTo R (Ptr (vType v)) (vType field)
             then Inr (StructValue (fs(FieldName c \<mapsto> field\<lparr>vContent := GPointer (vContent v)\<rparr>)))
             else Inl ReflectPanic)
          else Inr (StructValue (fs(FieldName c \<mapsto> field\<lparr>vContent := vContent v\<rparr>))))"
    using SetValue_assignable [of fs c field R v] f by (simp add: field_Set_def Addr_def)
next
  assume a: "vCanSet field \<and> \<not> IsJSON c \<and> \<not> AssignableTo R (vType v) (vType field) \<and>
       \<not> is_Ptr (vType field)"
  have "field_Set R fs (FieldName c) field cv =
          Inr (StructValue (fs(FieldName c \<mapsto> field\<lparr>vContent := vContent cv\<rparr>)))"
    if "Convert R v (vType field) = Some cv" for cv
  proof -
    from R that have "vType cv = vType field" by (simp add: reflect_ok_def)
    with R show ?thesis by (simp add: field_Set_def reflect_ok_def)
  qed
  with a show "SetValue R c (StructValue fs) (Some v) =
         (case Convert R v (vType field) of
            None \<Rightarrow> Inl ReflectPanic
          | Some convertedValue \<Rightarrow>
              Inr (StructValue (fs(FieldName c \<mapsto> field\<lparr>vContent := vContent convertedValue\<rparr>))))"
    using SetValue_convert [of fs c field R v] f by (simp split: option.splits)
next
  assume a: "vCanSet field \<and> \<not> IsJSON c \<and> \<not> AssignableTo R (vType v) (vType field) \<and>
       is_Ptr (vType field) \<and> \<not> vCanAddr v"
  then obtain e where "vType field = Ptr e" by (cases "vType field") auto
  with a show "SetValue R c (StructValue fs) (Some v) = Inl (Exception ''cannot take address of value'')"
    using SetValue_pointer [of fs c field R v e] f by auto
next
  assume a: "vCanSet field \<and> \<not> IsJSON c \<and> \<not> AssignableTo R (vType v) (vType field) \<and>
       vType field = Ptr (vType v) \<and> vCanAddr v"
  from R have "AssignableTo R (Ptr (vType v)) (Ptr (vType v))" by (simp add: reflect_ok_def)
  with a show "SetValue R c (StructValue fs) (Some v) =
         Inr (StructValue (fs(FieldName c \<mapsto> field\<lparr>vContent := GPointer (vContent v)\<rparr>)))"
    using SetValue_pointer [of fs c field R v "vType v"] f by (auto simp: field_Set_def Addr_def)
qed


text \<open>
  Claim C3 as stated promises, for a settable field and a valid source, an assignment
  of the source or of the converted source, or else the error. On a JSON column an
  assignable \<^verbatim>\<open>int\<close> is not assigned to an \<^verbatim>\<open>int\<close> field: nil is returned and the
  object is as it was. A \<^verbatim>\<open>string\<close> does not convert to \<^verbatim>\<open>int\<close>: the call panics. An
  addressable \<^verbatim>\<open>int64\<close> is not assigned to a field of type pointer to \<^verbatim>\<open>int\<close>: nil is
  returned and the object is as it was.
\<close>

theorem SetValue_claimed_contract_fails:
  "AssignableTo reflect_example (Basic ''int'') (Basic ''int'') \<and>
   SetValue reflect_example (zeroColumn\<lparr>FieldName := ''N'', IsJSON := True\<rparr>) int_object
     (Some \<lparr>vType = Basic ''int'', vContent = GInt 5, vCanAddr = False, vCanSet = False\<rparr>) =
   Inr int_object \<and>
   \<not> AssignableTo reflect_example (Basic ''string'') (Basic ''int'') \<and>
   SetValue reflect_example (zeroColumn\<lparr>FieldName := ''N''\<rparr>) int_object
     (Some \<lparr>vType = Basic ''string'', vContent = GString ''x'', vCanAddr = False, vCanSet = False\<rparr>) =
   Inl ReflectPanic \<and>
   \<not> AssignableTo reflect_example (Basic ''int64'') (Ptr (Basic ''int'')) \<and>
   SetValue reflect_example (zeroColumn\<lparr>FieldName := ''P''\<rparr>) pointer_object
     (Some \<lparr>vType = Basic ''int64'', vContent = GInt 7, vCanAddr = True, vCanSet = True\<rparr>) =
   Inr pointer_object"
  by (simp add: SetValue_def reflect_example_def zeroColumn_def numeric_def int_object_def
      pointer_object_def)

theorem SetValue_contract_witness:
  "reflect_ok reflect_example \<and>
   SetValue reflect_example (zeroColumn\<lparr>FieldName := ''N''\<rparr>)
     (StructValue [''N'' \<mapsto> \<lparr>vType = Basic ''int'', vContent = GInt 0,
                                  vCanAddr = True, vCanSet = False\<rparr>])
     (Some \<lparr>vType = Basic ''int'', vContent = GInt 5, vCanAddr = False, vCanSet = False\<rparr>) =
   Inl (Exception (cant_set_msg ''N'')) \<and>
   SetValue reflect_example (zeroColumn\<lparr>FieldName := ''N''\<rparr>)
     (StructValue [''N'' \<mapsto> \<lparr>vType = Basic ''int'', vContent = GInt 0,
                                  vCanAddr = True, vCanSet = True\<rparr>]) None =
   Inr (StructValue [''N'' \<mapsto> \<lparr>vType = Basic ''int'', vContent = GInt 0,
                                      vCanAddr = True, vCanSet = True\<rparr>]) \<and>
   SetValue reflect_example (zeroColumn\<lparr>FieldName := ''N'', IsJSON := True\<rparr>)
     (StructValue [''N'' \<mapsto> \<lparr>vType = Basic ''int'', vContent = GInt 0,
                                  vCanAddr = True, vCanSet = True\<rparr>])
     (Some \<lparr>vType = Basic ''sql.NullString'', vContent = GNullString ''{'' True,
             vCanAddr = False, vCanSet = False\<rparr>) =
   Inl (Exception ''invalid character'') \<and>
   SetValue reflect_example (zeroColumn\<lparr>FieldName := ''N''\<rparr>)
     (StructValue [''N'' \<mapsto> \<lparr>vType = Basic ''int'', vContent = GInt 0,
                                  vCanAddr = True, vCanSet = True\<rparr>])
     (Some \<lparr>vType = Basic ''int'', vContent = GInt 5, vCanAddr = False, vCanSet = False\<rparr>) =
   Inr (StructValue [''N'' \<mapsto> \<lparr>vType = Basic ''int'', vContent = GInt 5,
                                      vCanAddr = True, vCanSet = True\<rparr>]) \<and>
   SetValue reflect_example (zeroColumn\<lparr>FieldName := ''P''\<rparr>)
     (StructValue [''P'' \<mapsto> \<lparr>vType = Ptr (Basic ''int''), vContent = GNil,
                                  vCanAddr = True, vCanSet = True\<rparr>])
     (Some \<lparr>vType = Ptr (Basic ''int''), vContent = GPointer (GInt 7),
             vCanAddr = True, vCanSet = True\<rparr>) =
   Inl ReflectPanic \<and>
   SetValue reflect_example (zeroColumn\<lparr>FieldName := ''N''\<rparr>)
     (StructValue [''N'' \<mapsto> \<lparr>vType = Basic ''int'', vContent = GInt 0,
                                  vCanAddr = True, vCanSet = True\<rparr>])
     (Some \<lparr>vType = Basic ''int64'', vContent = GInt 5, vCanAddr = False, vCanSet = False\<rparr>) =
   Inr (StructValue [''N'' \<mapsto> \<lparr>vType = Basic ''int'', vContent = GInt 5,
                                      vCanAddr = True, vCanSet = True\<rparr>]) \<and>
   SetValue reflect_example (zeroColumn\<lparr>FieldName := ''N''\<rparr>)
     (StructValue [''N'' \<mapsto> \<lparr>vType = Basic ''int'', vContent = GInt 0,
                                  vCanAddr = True, vCanSet = True\<rparr>])
     (Some \<lparr>vType = Basic ''string'', vContent = GString ''x'', vCanAddr = False, vCanSet = False\<rparr>) =
   Inl ReflectPanic \<and>
   SetValue reflect_example (zeroColumn\<lparr>FieldName := ''P''\<rparr>)
     (StructValue [''P'' \<mapsto> \<lparr>vType = Ptr (Basic ''int''), vContent = GNil,
                                  vCanAddr = True, vCanSet = True\<rparr>])
     (Some \<lparr>vType = Basic ''int'', vContent = GInt 7, vCanAddr = False, vCanSet = False\<rparr>) =
   Inl (Exception ''cannot take address of value'') \<and>
   SetValue reflect_example (zeroColumn\<lparr>FieldName := ''P''\<rparr>)
     (StructValue [''P'' \<mapsto> \<lparr>vType = Ptr (Basic ''int''), vContent = GNil,
                                  vCanAddr = True, vCanSet = True\<rparr>])
     (Some \<lparr>vType = Basic ''int'', vContent = GInt 7, vCanAddr = True, vCanSet = True\<rparr>) =
   Inr (StructValue [''P'' \<mapsto> \<lparr>vType = Ptr (Basic ''int''), vContent = GPointer (GInt 7),
                                      vCanAddr = True, vCanSet = True\<rparr>])"
proof -
  let ?R = reflect_example
  let ?cN = "zeroColumn\<lparr>FieldName := ''N''\<rparr>"
  let ?cJ = "zeroColumn\<lparr>FieldName := ''N'', IsJSON := True\<rparr>"
  let ?cP = "zeroColumn\<lparr>FieldName := ''P''\<rparr>"
  let ?ro = "\<lparr>vType = Basic ''int'', vContent = GInt 0, vCanAddr = True, vCanSet = False\<rparr>"
  let ?rw = "\<lparr>vType = Basic ''int'', vContent = GInt 0, vCanAddr = True, vCanSet = True\<rparr>"
  let ?pf = "\<lparr>vType = Ptr (Basic ''int''), vContent = GNil, vCanAddr = True, vCanSet = True\<rparr>"
  let ?i5 = "\<lparr>vType = Basic ''int'', vContent = GInt 5, vCanAddr = False, vCanSet = False\<rparr>"
  let ?l5 = "\<lparr>vType = Basic ''int64'', vContent = GInt 5, vCanAddr = False, vCanSet = False\<rparr>"
  let ?sx = "\<lparr>vType = Basic ''string'', vContent = GString ''x'', vCanAddr = False, vCanSet = False\<rparr>"
  let ?js = "\<lparr>vType = Basic ''sql.NullString'', vContent = GNullString ''{'' True,
              vCanAddr = False, vCanSet = False\<rparr>"
  let ?p7 = "\<lparr>vType = Ptr (Basic ''int''), vContent = GPointer (GInt 7),
              vCanAddr = True, vCanSet = True\<rparr>"
  let ?u7 = "\<lparr>vType = Basic ''int'', vContent = GInt 7, vCanAddr = False, vCanSet = False\<rparr>"
  let ?a7 = "\<lparr>vType = Basic ''int'', vContent = GInt 7, vCanAddr = True, vCanSet = True\<rparr>"
  have ok: "reflect_ok ?R" by (rule reflect_ok_example)
  have N: "[''N'' \<mapsto> ?ro] (FieldName ?cN) = Some ?ro" "[''N'' \<mapsto> ?rw] (FieldName ?cN) = Some ?rw"
    and J: "[''N'' \<mapsto> ?rw] (FieldName ?cJ) = Some ?rw"
    and P: "[''P'' \<mapsto> ?pf] (FieldName ?cP) = Some ?pf"
    by (simp_all add: zeroColumn_def)
  have 1: "SetValue ?R ?cN (StructValue [''N'' \<mapsto> ?ro]) (Some ?i5) = Inl (Exception (cant_set_msg ''N''))"
    using SetValue_contract [where fs = "[''N'' \<mapsto> ?ro]" and c = ?cN and field = ?ro and R = ?R and vr = "Some ?i5"] N ok
    by (simp add: zeroColumn_def)
  have 2: "SetValue ?R ?cN (StructValue [''N'' \<mapsto> ?rw]) None = Inr (StructValue [''N'' \<mapsto> ?rw])"
    using SetValue_contract [where fs = "[''N'' \<mapsto> ?rw]" and c = ?cN and field = ?rw and R = ?R] N ok
    by (simp add: zeroColumn_def)
  have 3: "SetValue ?R ?cJ (StructValue [''N'' \<mapsto> ?rw]) (Some ?js) = Inl (Exception ''invalid character'')"
    using SetValue_contract [where fs = "[''N'' \<mapsto> ?rw]" and c = ?cJ and field = ?rw and R = ?R and v = ?js] J ok
    by (simp add: zeroColumn_def reflect_example_def)
  have 4: "SetValue ?R ?cN (StructValue [''N'' \<mapsto> ?rw]) (Some ?i5) =
           Inr (StructValue [''N'' \<mapsto> ?rw\<lparr>vContent := GInt 5\<rparr>])"
    using SetValue_contract [where fs = "[''N'' \<mapsto> ?rw]" and c = ?cN and field = ?rw and R = ?R and v = ?i5] N ok
    by (simp add: zeroColumn_def reflect_example_def)
  have 5: "SetValue ?R ?cP (StructValue [''P'' \<mapsto> ?pf]) (Some ?p7) = Inl ReflectPanic"
    using SetValue_contract [where fs = "[''P'' \<mapsto> ?pf]" and c = ?cP and field = ?pf and R = ?R and v = ?p7] P ok
    by (simp add: zeroColumn_def reflect_example_def)
  have 6: "SetValue ?R ?cN (StructValue [''N'' \<mapsto> ?rw]) (Some ?l5) =
           Inr (StructValue [''N'' \<mapsto> ?rw\<lparr>vContent := GInt 5\<rparr>])"
    using SetValue_contract [where fs = "[''N'' \<mapsto> ?rw]" and c = ?cN and field = ?rw and R = ?R and v = ?l5] N ok
    by (simp add: zeroColumn_def reflect_example_def numeric_def)
  have 7: "SetValue ?R ?cN (StructValue [''N'' \<mapsto> ?rw]) (Some ?sx) = Inl ReflectPanic"
    using SetValue_contract [where fs = "[''N'' \<mapsto> ?rw]" and c = ?cN and field = ?rw and R = ?R and v = ?sx] N ok
    by (simp add: zeroColumn_def reflect_example_def numeric_def)
  have 8: "SetValue ?R ?cP (StructValue [''P'' \<mapsto> ?pf]) (Some ?u7) =
           Inl (Exception ''cannot take address of value'')"
    using SetValue_contract [where fs = "[''P'' \<mapsto> ?pf]" and c = ?cP and field = ?pf and R = ?R and v = ?u7] P ok
    by (simp add: zeroColumn_def reflect_example_def)
  have 9: "SetValue ?R ?cP (StructValue [''P'' \<mapsto> ?pf]) (Some ?a7) =
           Inr (StructValue [''P'' \<mapsto> ?pf\<lparr>vContent := GPointer (GInt 7)\<rparr>])"
    using SetValue_contract [where fs = "[''P'' \<mapsto> ?pf]" and c = ?cP and field = ?pf and R = ?R and v = ?a7] P ok
    by (simp add: zeroColumn_def reflect_example_def)
  from ok 1 2 3 4 5 6 7 8 9 show ?thesis by simp
qed

section \<open>Column collections: loops, slices and construction\<close>

lemma for_each_append:
  "for_each body (xs @ ys) s =
     (case for_each body xs s of None \<Rightarrow> None | Some s' \<Rightarrow> for_each body ys s')"
  by (induction xs arbitrary: s) (auto split: option.splits)

lemma for_each_snoc:
  "for_each body (xs @ [x]) s =
     (case for_each body xs s of None \<Rightarrow> None | Some s' \<Rightarrow> body x s')"
  by (simp add: for_each_append split: option.splits)

text \<open>A loop invariant for \<open>for_each\<close> over the indices below a bound.\<close>

lemma for_each_upt_invariant:
  assumes init: "I 0 s"
    and step: "\<And>i s. i < n \<Longrightarrow> I i s \<Longrightarrow> \<exists>s'. body i s = Some s' \<and> I (Suc i) s'"
  shows "\<exists>s'. for_each body [0..<n] s = Some s' \<and> I n s'"
proof -
  have "k \<le> n \<Longrightarrow> \<exists>s'. for_each body [0..<k] s = Some s' \<and> I k s'" for k
  proof (induction k)
    case 0
    with init show ?case by simp
  next
    case (Suc k)
    then obtain s1 where s1: "for_each body [0..<k] s = Some s1" "I k s1" by auto
    from step [of k s1] Suc.prems s1(2) obtain s2 where "body k s1 = Some s2" "I (Suc k) s2"
      by auto
    with s1 show ?case by (simp add: for_each_snoc)
  qed
  then show ?thesis by simp
qed

subsection \<open>append\<close>

lemma slice_ok_arrays:
  "(\<And>a. sl_arr s = Some a \<Longrightarrow> arrays h' a = arrays h a) \<Longrightarrow> slice_ok h' s = slice_ok h s"
  by (cases "sl_arr s") (simp_all add: slice_ok_def)

lemma slice_elems_arrays:
  "(\<And>a. sl_arr s = Some a \<Longrightarrow> arrays h' a = arrays h a) \<Longrightarrow> slice_elems h' s = slice_elems h s"
  by (cases "sl_arr s") (simp_all add: slice_elems_def)

lemma slice_get_arrays:
  "(\<And>a. sl_arr s = Some a \<Longrightarrow> arrays h' a = arrays h a) \<Longrightarrow> slice_get h' s i = slice_get h s i"
  by (cases "sl_arr s") (simp_all add: slice_get_def)

lemma slice_ok_nil [simp]: "slice_ok h nilSlice"
  by (simp add: slice_ok_def nilSlice_def)

lemma slice_elems_nil [simp]: "slice_elems h nilSlice = Some []"
  by (simp add: slice_elems_def nilSlice_def)

lemma slice_ok_elems:
  "slice_ok h s \<Longrightarrow> \<exists>xs. slice_elems h s = Some xs \<and> length xs = sl_len s"
  by (auto simp: slice_ok_def slice_elems_def split: option.splits)

lemma append_col_in_place:
  assumes "sl_arr s = Some a" and "arrays h a = Some xs" and "sl_cap s = length xs"
    and "sl_len s < sl_cap s"
  shows "append_col h s c =
           Some (s\<lparr>sl_len := Suc (sl_len s)\<rparr>, h\<lparr>arrays := (arrays h)(a \<mapsto> xs[sl_len s := c])\<rparr>)"
  using assms by (simp add: append_col_def)

lemma append_col_grow:
  assumes "slice_elems h s = Some old" and "\<not> sl_len s < sl_cap s"
  shows "append_col h s c =
           Some (\<lparr>sl_arr = Some (fresh h), sl_len = Suc (sl_len s),
                  sl_cap = Suc (sl_len s) + spare h (sl_cap s)\<rparr>,
                 h\<lparr>arrays := (arrays h)(fresh h \<mapsto> old @ [c] @ replicate (spare h (sl_cap s)) zeroColumn),
                   fresh := Suc (fresh h)\<rparr>)"
  using assms by (simp add: append_col_def new_array_def Let_def)

lemma append_col_ok:
  assumes ok: "slice_ok h s" and el: "slice_elems h s = Some xs"
  shows "\<exists>s' h'. append_col h s c = Some (s', h') \<and> slice_ok h' s' \<and>
           slice_elems h' s' = Some (xs @ [c]) \<and> sl_len s' = Suc (sl_len s) \<and>
           vars h' = vars h \<and> maps h' = maps h \<and> objs h' = objs h \<and> spare h' = spare h \<and>
           fresh h \<le> fresh h'"
proof (cases "sl_len s < sl_cap s")
  case True
  with ok obtain a ys where a: "sl_arr s = Some a" "arrays h a = Some ys" "sl_cap s = length ys"
    by (auto simp: slice_ok_def split: option.splits)
  from el a True have xs: "xs = take (sl_len s) ys"
    by (auto simp: slice_elems_def split: if_splits)
  have "take (Suc (sl_len s)) (ys[sl_len s := c]) = take (sl_len s) ys @ [c]"
    using True a(3) by (simp add: take_Suc_conv_app_nth)
  with append_col_in_place [OF a True, of c] a True xs show ?thesis
    by (simp add: slice_ok_def slice_elems_def)
next
  case False
  have len: "length xs = sl_len s"
    using slice_ok_elems [OF ok] el by simp
  from append_col_grow [OF el False, of c] len show ?thesis
    by (simp add: slice_ok_def slice_elems_def)
qed

lemma NewColumn_None: "NewColumnFromFieldTag f = None \<longleftrightarrow> Tag_db f = ''-''"
  by (simp add: NewColumnFromFieldTag_def Let_def)

lemma NewColumn_FieldName: "NewColumnFromFieldTag f = Some col \<Longrightarrow> FieldName col = Name f"
  by (auto simp: NewColumnFromFieldTag_def Let_def zeroColumn_def split: if_splits)

lemma field_column_None: "field_column tn (i, f) = None \<longleftrightarrow> \<not> included f"
  by (auto simp: field_column_def included_def NewColumn_None)

lemma field_column_Some:
  "field_column tn (i, f) = Some col \<Longrightarrow>
     included f \<and> Index col = int i \<and> TableName col = tn \<and> FieldName col = Name f"
  using field_column_None [of tn i f]
  by (auto simp: field_column_def dest: NewColumn_FieldName split: if_splits)

lemma add_field_step:
  assumes "slice_ok h cols" and "slice_elems h cols = Some acc"
  shows "\<exists>cols' h'. add_field tn ixf (cols, h) = Some (cols', h') \<and> slice_ok h' cols' \<and>
           slice_elems h' cols' = Some (acc @ (case field_column tn ixf of None \<Rightarrow> [] | Some c \<Rightarrow> [c])) \<and>
           vars h' = vars h \<and> maps h' = maps h \<and> objs h' = objs h \<and> spare h' = spare h \<and>
           fresh h \<le> fresh h'"
proof (cases "field_column tn ixf")
  case None
  then have "add_field tn ixf (cols, h) = Some (cols, h)"
    by (auto simp: add_field_def field_column_def split: prod.splits if_splits option.splits)
  with assms None show ?thesis by simp
next
  case (Some c)
  then have "add_field tn ixf (cols, h) = append_col h cols c"
    by (auto simp: add_field_def field_column_def split: prod.splits if_splits option.splits)
  with append_col_ok [OF assms, of c] Some show ?thesis by auto
qed

lemma add_field_loop:
  assumes "slice_ok h cols" and "slice_elems h cols = Some acc"
  shows "\<exists>cols' h'. for_each (add_field tn) ixfs (cols, h) = Some (cols', h') \<and> slice_ok h' cols' \<and>
           slice_elems h' cols' = Some (acc @ List.map_filter (field_column tn) ixfs) \<and>
           vars h' = vars h \<and> maps h' = maps h \<and> objs h' = objs h \<and> spare h' = spare h \<and>
           fresh h \<le> fresh h'"
  using assms
proof (induction ixfs arbitrary: cols h acc)
  case Nil
  then show ?case by (simp add: List.map_filter_simps)
next
  case (Cons ixf ixfs)
  from add_field_step [OF Cons.prems, of tn ixf] obtain cols1 h1 where
    1: "add_field tn ixf (cols, h) = Some (cols1, h1)" "slice_ok h1 cols1"
       "slice_elems h1 cols1 = Some (acc @ (case field_column tn ixf of None \<Rightarrow> [] | Some c \<Rightarrow> [c]))"
       "vars h1 = vars h" "maps h1 = maps h" "objs h1 = objs h" "spare h1 = spare h"
       "fresh h \<le> fresh h1"
    by blast
  from Cons.IH [OF 1(2,3)] obtain cols2 h2 where
    2: "for_each (add_field tn) ixfs (cols1, h1) = Some (cols2, h2)" "slice_ok h2 cols2"
       "slice_elems h2 cols2 =
          Some ((acc @ (case field_column tn ixf of None \<Rightarrow> [] | Some c \<Rightarrow> [c])) @
                List.map_filter (field_column tn) ixfs)"
       "vars h2 = vars h1" "maps h2 = maps h1" "objs h2 = objs h1" "spare h2 = spare h1"
       "fresh h1 \<le> fresh h2"
    by blast
  have "for_each (add_field tn) (ixf # ixfs) (cols, h) = Some (cols2, h2)"
    using 1(1) 2(1) by simp
  moreover have "(acc @ (case field_column tn ixf of None \<Rightarrow> [] | Some c \<Rightarrow> [c])) @
                List.map_filter (field_column tn) ixfs =
                acc @ List.map_filter (field_column tn) (ixf # ixfs)"
    by (simp add: List.map_filter_simps split: option.splits)
  ultimately show ?case using 1 2 by simp
qed

text \<open>The lookup loop writes into the new map and nowhere else.\<close>

lemma index_columns_loop:
  assumes ok: "slice_ok h cols" and m: "maps h lk = Some m"
  shows "\<exists>m'. for_each (index_columns cols lk) [0..<sl_len cols] h =
                 Some (h\<lparr>maps := (maps h)(lk \<mapsto> m')\<rparr>) \<and>
               (\<forall>k ptr. m' k = Some ptr \<longrightarrow>
                  m k = Some ptr \<or> (\<exists>a j. sl_arr cols = Some a \<and> j < sl_len cols \<and> ptr = ElemPtr a j))"
proof -
  let ?I = "\<lambda>i s. \<exists>m'. s = h\<lparr>maps := (maps h)(lk \<mapsto> m')\<rparr> \<and>
               (\<forall>k ptr. m' k = Some ptr \<longrightarrow>
                  m k = Some ptr \<or> (\<exists>a j. sl_arr cols = Some a \<and> j < sl_len cols \<and> ptr = ElemPtr a j))"
  have init: "?I 0 h"
  proof -
    have "h = h\<lparr>maps := (maps h)(lk \<mapsto> m)\<rparr>" using m by (simp add: fun_upd_idem)
    then show ?thesis by blast
  qed
  have step: "\<exists>s'. index_columns cols lk i s = Some s' \<and> ?I (Suc i) s'"
    if i: "i < sl_len cols" and I: "?I i s" for i s
  proof -
    from I obtain m' where s: "s = h\<lparr>maps := (maps h)(lk \<mapsto> m')\<rparr>"
      and m': "\<forall>k ptr. m' k = Some ptr \<longrightarrow>
                  m k = Some ptr \<or> (\<exists>a j. sl_arr cols = Some a \<and> j < sl_len cols \<and> ptr = ElemPtr a j)"
      by blast
    from ok i obtain a xs where a: "sl_arr cols = Some a" "arrays h a = Some xs" "i < length xs"
      by (auto simp: slice_ok_def split: option.splits)
    have "index_columns cols lk i s =
            Some (h\<lparr>maps := (maps h)(lk \<mapsto> m'(ColumnName (xs ! i) \<mapsto> ElemPtr a i))\<rparr>)"
      using a i s by (simp add: index_columns_def elem_ptr_def deref_def map_store_def)
    moreover have "\<forall>k ptr. (m'(ColumnName (xs ! i) \<mapsto> ElemPtr a i)) k = Some ptr \<longrightarrow>
                  m k = Some ptr \<or> (\<exists>a j. sl_arr cols = Some a \<and> j < sl_len cols \<and> ptr = ElemPtr a j)"
      using m' a i by auto
    ultimately show ?thesis by blast
  qed
  from for_each_upt_invariant [of ?I h "sl_len cols" "index_columns cols lk", OF init step]
  show ?thesis by blast
qed


lemma newColumnCollectionWithPrefixFromColumns_ok:
  assumes ok: "slice_ok h cols"
  shows "\<exists>m'. newColumnCollectionWithPrefixFromColumns h pfx cols =
           Some (fresh h,
                 h\<lparr>objs := (objs h)(fresh h \<mapsto>
                            emptyCollection\<lparr>columns := cols, columnPrefix := pfx,
                                            lookup := Some (Suc (fresh h))\<rparr>),
                   maps := (maps h)(Suc (fresh h) \<mapsto> m'),
                   fresh := Suc (Suc (fresh h))\<rparr>) \<and>
           (\<forall>k ptr. m' k = Some ptr \<longrightarrow>
              (\<exists>a j. sl_arr cols = Some a \<and> j < sl_len cols \<and> ptr = ElemPtr a j))"
proof -
  define cc0 where "cc0 = emptyCollection\<lparr>columns := cols, columnPrefix := pfx\<rparr>"
  define h2 where "h2 = h\<lparr>objs := (objs h)(fresh h \<mapsto> cc0),
                          maps := (maps h)(Suc (fresh h) \<mapsto> Map.empty),
                          fresh := Suc (Suc (fresh h))\<rparr>"
  have arr: "arrays h2 = arrays h" by (simp add: h2_def)
  have ok2: "slice_ok h2 cols" using ok slice_ok_arrays [of cols h2 h] arr by simp
  have m2: "maps h2 (Suc (fresh h)) = Some Map.empty" by (simp add: h2_def)
  from index_columns_loop [OF ok2 m2] obtain m' where
    loop: "for_each (index_columns cols (Suc (fresh h))) [0..<sl_len cols] h2 =
             Some (h2\<lparr>maps := (maps h2)(Suc (fresh h) \<mapsto> m')\<rparr>)"
    and m': "\<forall>k ptr. m' k = Some ptr \<longrightarrow>
              Map.empty k = Some ptr \<or> (\<exists>a j. sl_arr cols = Some a \<and> j < sl_len cols \<and> ptr = ElemPtr a j)"
    by blast
  have start: "newColumnCollectionWithPrefixFromColumns h pfx cols =
      do { h3 \<leftarrow> for_each (index_columns cols (Suc (fresh h))) [0..<sl_len cols] h2;
           h4 \<leftarrow> upd_obj h3 (fresh h) (\<lambda>obj. obj\<lparr>lookup := Some (Suc (fresh h))\<rparr>);
           Some (fresh h, h4) }"
    by (simp add: newColumnCollectionWithPrefixFromColumns_def new_obj_def new_map_def h2_def cc0_def)
  have upd: "upd_obj (h2\<lparr>maps := (maps h2)(Suc (fresh h) \<mapsto> m')\<rparr>) (fresh h)
               (\<lambda>obj. obj\<lparr>lookup := Some (Suc (fresh h))\<rparr>) =
             Some (h\<lparr>objs := (objs h)(fresh h \<mapsto> cc0\<lparr>lookup := Some (Suc (fresh h))\<rparr>),
                   maps := (maps h)(Suc (fresh h) \<mapsto> m'),
                   fresh := Suc (Suc (fresh h))\<rparr>)"
    by (simp add: upd_obj_def h2_def)
  have "newColumnCollectionWithPrefixFromColumns h pfx cols =
           Some (fresh h,
                 h\<lparr>objs := (objs h)(fresh h \<mapsto> cc0\<lparr>lookup := Some (Suc (fresh h))\<rparr>),
                   maps := (maps h)(Suc (fresh h) \<mapsto> m'),
                   fresh := Suc (Suc (fresh h))\<rparr>)"
    by (simp only: start loop upd bind.bind_lunit)
  moreover have "cc0\<lparr>lookup := Some (Suc (fresh h))\<rparr> =
      emptyCollection\<lparr>columns := cols, columnPrefix := pfx, lookup := Some (Suc (fresh h))\<rparr>"
    by (simp add: cc0_def)
  ultimately have res: "newColumnCollectionWithPrefixFromColumns h pfx cols =
           Some (fresh h,
                 h\<lparr>objs := (objs h)(fresh h \<mapsto>
                            emptyCollection\<lparr>columns := cols, columnPrefix := pfx,
                                            lookup := Some (Suc (fresh h))\<rparr>),
                   maps := (maps h)(Suc (fresh h) \<mapsto> m'),
                   fresh := Suc (Suc (fresh h))\<rparr>)"
    by (simp only:)
  have ran: "\<forall>k ptr. m' k = Some ptr \<longrightarrow>
              (\<exists>a j. sl_arr cols = Some a \<and> j < sl_len cols \<and> ptr = ElemPtr a j)"
    using m' by simp
  show ?thesis
    by (rule exI [of _ m']) (rule conjI [OF res ran])
qed

lemma newColumnCollectionFromColumns_eq:
  "newColumnCollectionFromColumns h cols = newColumnCollectionWithPrefixFromColumns h [] cols"
  by (simp add: newColumnCollectionFromColumns_def newColumnCollectionWithPrefixFromColumns_def
      emptyCollection_def)

lemma Columns_eq:
  "objs h p = Some cc \<Longrightarrow> Columns h p = slice_elems h (columns cc)"
  by (simp add: Columns_def)

lemma Len_eq: "objs h p = Some cc \<Longrightarrow> Len h p = Some (sl_len (columns cc))"
  by (simp add: Len_def)

text \<open>What \<^verbatim>\<open>generateColumnCollectionForType\<close> returns for a struct type.\<close>

lemma generate_ok:
  assumes t: "strip_ptr t = Struct name flds"
  shows "\<exists>p h' cc. generateColumnCollectionForType tn h t = Some (p, h') \<and>
           objs h' p = Some cc \<and> slice_ok h' (columns cc) \<and>
           slice_elems h' (columns cc) =
             Some (List.map_filter (field_column (tn (Struct name flds))) (enumerate 0 flds))"
proof -
  let ?tn = "tn (Struct name flds)"
  from add_field_loop [of h nilSlice "[]" ?tn "enumerate 0 flds"] obtain cols h1 where
    loop: "for_each (add_field ?tn) (enumerate 0 flds) (nilSlice, h) = Some (cols, h1)"
    and ok: "slice_ok h1 cols"
    and el: "slice_elems h1 cols = Some (List.map_filter (field_column ?tn) (enumerate 0 flds))"
    by auto
  from newColumnCollectionWithPrefixFromColumns_ok [OF ok, of "[]"] obtain m' where
    nc: "newColumnCollectionFromColumns h1 cols =
           Some (fresh h1,
                 h1\<lparr>objs := (objs h1)(fresh h1 \<mapsto>
                            emptyCollection\<lparr>columns := cols, columnPrefix := [],
                                            lookup := Some (Suc (fresh h1))\<rparr>),
                   maps := (maps h1)(Suc (fresh h1) \<mapsto> m'),
                   fresh := Suc (Suc (fresh h1))\<rparr>)"
    unfolding newColumnCollectionFromColumns_eq by blast
  define h2 where "h2 = h1\<lparr>objs := (objs h1)(fresh h1 \<mapsto>
                            emptyCollection\<lparr>columns := cols, columnPrefix := [],
                                            lookup := Some (Suc (fresh h1))\<rparr>),
                   maps := (maps h1)(Suc (fresh h1) \<mapsto> m'),
                   fresh := Suc (Suc (fresh h1))\<rparr>"
  have gen: "generateColumnCollectionForType tn h t = Some (fresh h1, h2)"
    using t loop nc by (simp add: generateColumnCollectionForType_def h2_def)
  have arr: "arrays h2 = arrays h1" by (simp add: h2_def)
  have obj: "objs h2 (fresh h1) = Some (emptyCollection\<lparr>columns := cols, columnPrefix := [],
                                            lookup := Some (Suc (fresh h1))\<rparr>)"
    by (simp add: h2_def)
  have ok2: "slice_ok h2 cols" using ok slice_ok_arrays [of cols h2 h1] arr by simp
  have el2: "slice_elems h2 cols = Some (List.map_filter (field_column ?tn) (enumerate 0 flds))"
    using el slice_elems_arrays [of cols h2 h1] arr by simp
  from gen obj ok2 el2 show ?thesis by simp
qed

lemma map_filter_field_column:
  "map (\<lambda>c. (Index c, FieldName c, TableName c)) (List.map_filter (field_column tn) ixfs) =
   map (\<lambda>(i, f). (int i, Name f, tn)) (filter (\<lambda>(i, f). included f) ixfs)"
proof (induction ixfs)
  case Nil
  show ?case by (simp add: List.map_filter_simps)
next
  case (Cons ixf ixfs)
  obtain i f where ixf: "ixf = (i, f)" by (cases ixf)
  show ?case
  proof (cases "field_column tn (i, f)")
    case None
    with Cons ixf field_column_None [of tn i f] show ?thesis
      by (simp add: List.map_filter_simps)
  next
    case (Some c)
    with Cons ixf field_column_Some [OF Some] show ?thesis
      by (simp add: List.map_filter_simps)
  qed
qed

lemma filter_enumerate_length:
  "length (filter (\<lambda>(i, f). P f) (enumerate n xs)) = length (filter P xs)"
  by (induction xs arbitrary: n) simp_all

text \<open>
  Claim C4. For a struct type, or a pointer to one, the collection that
  \<^verbatim>\<open>generateColumnCollectionForType\<close> builds has one column for each field that is
  neither embedded nor tagged \<^verbatim>\<open>-\<close>, and no other: its length is the number of these
  fields, and its columns carry, in order, their declaration indices, their names and the
  table name.
\<close>

theorem generate_columns_in_declaration_order:
  assumes "strip_ptr t = Struct name flds"
  shows "\<exists>p h' cols. generateColumnCollectionForType tn h t = Some (p, h') \<and>
           Columns h' p = Some cols \<and>
           Len h' p = Some (length (filter included flds)) \<and>
           length cols = length (filter included flds) \<and>
           map (\<lambda>c. (Index c, FieldName c, TableName c)) cols =
             map (\<lambda>(i, f). (int i, Name f, tn (Struct name flds)))
                 (filter (\<lambda>(i, f). included f) (enumerate 0 flds))"
proof -
  let ?cols = "List.map_filter (field_column (tn (Struct name flds))) (enumerate 0 flds)"
  from generate_ok [OF assms, of tn h] obtain p h' cc where
    g: "generateColumnCollectionForType tn h t = Some (p, h')" "objs h' p = Some cc"
       "slice_ok h' (columns cc)" "slice_elems h' (columns cc) = Some ?cols"
    by blast
  have m: "map (\<lambda>c. (Index c, FieldName c, TableName c)) ?cols =
             map (\<lambda>(i, f). (int i, Name f, tn (Struct name flds)))
                 (filter (\<lambda>(i, f). included f) (enumerate 0 flds))"
    by (rule map_filter_field_column)
  have len: "length ?cols = length (filter included flds)"
    using arg_cong [OF m, of length] by (simp add: filter_enumerate_length)
  have "sl_len (columns cc) = length ?cols"
    using slice_ok_elems [OF g(3)] g(4) by simp
  with g len m show ?thesis
    by (simp add: Columns_eq Len_eq)
qed

theorem generate_columns_in_declaration_order_witness:
  "(case generateColumnCollectionForType testTableName heap0 (Ptr myStruct) of
      Some (p, h') \<Rightarrow>
        Len h' p = Some 8 \<and>
        map_option (map (\<lambda>c. (Index c, FieldName c, TableName c))) (Columns h' p) =
          Some [(0, ''PrimaryKeyCol'', ''my_struct''), (1, ''AutoCol'', ''my_struct''),
                (2, ''InferredName'', ''my_struct''), (4, ''NullableCol'', ''my_struct''),
                (5, ''InferredWithFlags'', ''my_struct''), (6, ''BigIntColumn'', ''my_struct''),
                (7, ''PointerColumn'', ''my_struct''), (8, ''JSONColumn'', ''my_struct'')]
    | None \<Rightarrow> False)"
proof -
  let ?flds = "[StructField ''PrimaryKeyCol'' (Basic ''int'') ''primary_key_column,pk,serial'' False,
      StructField ''AutoCol'' (Basic ''string'') ''auto_column,auto'' False,
      StructField ''InferredName'' (Basic ''string'') [] False,
      StructField ''Excluded'' (Basic ''string'') ''-'' False,
      StructField ''NullableCol'' (Basic ''string'') ''nullable,nullable'' False,
      StructField ''InferredWithFlags'' (Basic ''string'') '',readonly'' False,
      StructField ''BigIntColumn'' (Basic ''int64'') ''big_int'' False,
      StructField ''PointerColumn'' (Ptr (Basic ''int'')) ''pointer_col'' False,
      StructField ''JSONColumn'' subStruct ''json_col,json'' False]"
  have t: "strip_ptr (Ptr myStruct) = Struct ''db.myStruct'' ?flds"
    by (simp add: myStruct_def)
  have tn: "testTableName (Struct ''db.myStruct'' ?flds) = ''my_struct''"
    by (simp add: testTableName_def myStruct_def)
  from generate_columns_in_declaration_order [OF t, of testTableName heap0]
  show ?thesis
    unfolding tn by (auto simp: included_def)
qed

section \<open>The metadata cache: properties\<close>

lemma getCached_hit:
  "cached st k = Some p \<Longrightarrow> getCachedColumnCollectionFromType tn st k t = (Some p, st)"
  by (cases "metaCache st")
     (simp_all add: cached_def getCachedColumnCollectionFromType_def Let_def)

lemma getCached_miss:
  assumes "cached st k = None"
  shows "getCachedColumnCollectionFromType tn st k t =
     (case generateColumnCollectionForType tn (store st) t of
        None \<Rightarrow> (None, st\<lparr>metaCache := Some (case metaCache st of None \<Rightarrow> Map.empty | Some m \<Rightarrow> m)\<rparr>)
      | Some (metadata, h) \<Rightarrow>
          (Some metadata,
           st\<lparr>store := h,
              metaCache := Some ((case metaCache st of None \<Rightarrow> Map.empty | Some m \<Rightarrow> m)(k \<mapsto> metadata)),
              built := built st @ [k]\<rparr>))"
  using assms
  by (cases "metaCache st")
     (simp_all add: cached_def getCachedColumnCollectionFromType_def Let_def split: option.splits)

lemma cached_after_panic [simp]:
  "cached (st\<lparr>metaCache := Some (case metaCache st of None \<Rightarrow> Map.empty | Some m \<Rightarrow> m)\<rparr>) k = cached st k"
  by (cases "metaCache st") (simp_all add: cached_def)

lemma cached_after_build [simp]:
  "cached (st\<lparr>store := h,
              metaCache := Some ((case metaCache st of None \<Rightarrow> Map.empty | Some m \<Rightarrow> m)(k \<mapsto> p)),
              built := b\<rparr>) k' = (if k' = k then Some p else cached st k')"
  by (cases "metaCache st") (simp_all add: cached_def)

text \<open>One call: what it returns, what it stores, and that it keeps the invariant.\<close>

lemma getCached_step:
  assumes inv: "cache_inv st"
    and call: "getCachedColumnCollectionFromType tn st k t = (r, st')"
  shows "cache_inv st' \<and>
         (\<forall>k' p. cached st k' = Some p \<longrightarrow> cached st' k' = Some p) \<and>
         (\<forall>p. r = Some p \<longrightarrow> cached st' k = Some p) \<and>
         (case cached st k of
            Some p \<Rightarrow> r = Some p \<and> st' = st
          | None \<Rightarrow> (case r of
                       Some p \<Rightarrow> built st' = built st @ [k]
                     | None \<Rightarrow> built st' = built st \<and> cached st' k = None))"
proof (cases "cached st k")
  case (Some p)
  with getCached_hit [OF Some, of tn t] call inv show ?thesis by simp
next
  case None
  note miss = getCached_miss [OF None, of tn t]
  show ?thesis
  proof (cases "generateColumnCollectionForType tn (store st) t")
    case None
    with miss call have r: "r = None"
      and st': "st' = st\<lparr>metaCache := Some (case metaCache st of None \<Rightarrow> Map.empty | Some m \<Rightarrow> m)\<rparr>"
      by simp_all
    have "cache_inv st'" using inv by (simp add: cache_inv_def st')
    with r st' \<open>cached st k = None\<close> show ?thesis by simp
  next
    case (Some ph)
    obtain p h where ph: "ph = (p, h)" by (cases ph)
    with miss call Some have r: "r = Some p"
      and st': "st' = st\<lparr>store := h,
              metaCache := Some ((case metaCache st of None \<Rightarrow> Map.empty | Some m \<Rightarrow> m)(k \<mapsto> p)),
              built := built st @ [k]\<rparr>"
      by simp_all
    have "k \<notin> set (built st)" using inv \<open>cached st k = None\<close> by (simp add: cache_inv_def)
    then have "cache_inv st'" using inv by (auto simp: cache_inv_def st')
    moreover have "\<forall>k' p'. cached st k' = Some p' \<longrightarrow> cached st' k' = Some p'"
      using \<open>cached st k = None\<close> by (auto simp: st')
    ultimately show ?thesis using r \<open>cached st k = None\<close> by (simp add: st')
  qed
qed

lemma resolve_all_run:
  assumes "cache_inv st" and "resolve_all tn st calls = (rs, st')"
  shows "cache_inv st' \<and> length rs = length calls \<and>
         (\<forall>k p. cached st k = Some p \<longrightarrow> cached st' k = Some p) \<and>
         (\<forall>i<length calls. \<forall>p. rs ! i = Some p \<longrightarrow> cached st' (fst (calls ! i)) = Some p)"
  using assms
proof (induction calls arbitrary: st rs st')
  case Nil
  then show ?case by simp
next
  case (Cons call calls)
  obtain k t where kt: "call = (k, t)" by (cases call)
  obtain r st1 where c1: "getCachedColumnCollectionFromType tn st k t = (r, st1)"
    by (cases "getCachedColumnCollectionFromType tn st k t")
  obtain rs1 st2 where c2: "resolve_all tn st1 calls = (rs1, st2)"
    by (cases "resolve_all tn st1 calls")
  from Cons.prems(2) kt c1 c2 have rs: "rs = r # rs1" and st': "st' = st2" by simp_all
  note s = getCached_step [OF Cons.prems(1) c1]
  from s have inv1: "cache_inv st1" by simp
  note ih = Cons.IH [OF inv1 c2]
  have keep: "\<forall>k p. cached st k = Some p \<longrightarrow> cached st' k = Some p"
    using s ih st' by blast
  have res: "\<forall>p. (rs ! i) = Some p \<longrightarrow> cached st' (fst ((call # calls) ! i)) = Some p"
    if "i < length (call # calls)" for i
  proof (cases i)
    case 0
    with s ih rs st' kt show ?thesis by auto
  next
    case (Suc j)
    with that ih rs st' show ?thesis by auto
  qed
  from ih keep res rs st' show ?case by simp
qed

lemma distinct_count_list:
  "distinct xs \<Longrightarrow> count_list xs k = (if k \<in> set xs then 1 else 0)"
  by (induction xs) auto

lemma getCached_other:
  assumes "getCachedColumnCollectionFromType tn st k t = (r, st1)" and "k' \<noteq> k"
  shows "cached st1 k' = cached st k'"
proof (cases "cached st k")
  case (Some p)
  with getCached_hit [OF Some, of tn t] assms show ?thesis by simp
next
  case None
  note miss = getCached_miss [OF None, of tn t]
  show ?thesis
  proof (cases "generateColumnCollectionForType tn (store st) t")
    case None
    with miss assms show ?thesis by auto
  next
    case (Some ph)
    obtain p h where "ph = (p, h)" by (cases ph)
    with miss assms Some show ?thesis by auto
  qed
qed

lemma getCached_struct:
  assumes miss: "cached st k = None" and t: "strip_ptr t = Struct name flds"
    and call: "getCachedColumnCollectionFromType tn st k t = (r, st1)"
  shows "\<exists>p. r = Some p \<and>
           Columns (store st1) p =
             Some (List.map_filter (field_column (tn (Struct name flds))) (enumerate 0 flds))"
proof -
  from generate_ok [OF t, of tn "store st"] obtain p h cc where
    g: "generateColumnCollectionForType tn (store st) t = Some (p, h)"
    and cc: "objs h p = Some cc"
    and el: "slice_elems h (columns cc) =
               Some (List.map_filter (field_column (tn (Struct name flds))) (enumerate 0 flds))"
    by blast
  from getCached_miss [OF miss, of tn t] call g have "r = Some p" and "store st1 = h"
    by auto
  with Columns_eq [OF cc] el show ?thesis by simp
qed

text \<open>
  Claim C1. In a state that the program can reach, a call of
  \<^verbatim>\<open>getCachedColumnCollectionFromType\<close> for an identifier that the cache holds returns
  the stored pointer and changes nothing: the store is the same, no collection is built.
  For an identifier that the cache does not hold, the call runs
  \<^verbatim>\<open>generateColumnCollectionForType\<close> once on the present store: the collection it
  builds is the one returned, its pointer is the one stored under the identifier, and
  the store after the call is the store that the build left; if the build panics,
  nothing is stored. The entries of all other identifiers stay as they were. For a
  struct type (behind any number of pointers) the build cannot fail, and the returned
  collection holds one column for each field that is neither embedded nor tagged
  \<^verbatim>\<open>-\<close>, in declaration order. Over any sequence of calls, no identifier is built
  twice, an identifier that was resolved was built exactly once, a returned pointer is
  the one that the cache holds at the end, and all calls for one identifier that return
  do return the same pointer.
\<close>

theorem metaCache_builds_once:
  assumes inv: "cache_inv st"
  shows "(case getCachedColumnCollectionFromType tn st k t of (r, st1) \<Rightarrow>
            cache_inv st1 \<and>
            (case cached st k of
               Some p \<Rightarrow> r = Some p \<and> st1 = st
             | None \<Rightarrow>
                 (case generateColumnCollectionForType tn (store st) t of
                    Some (p, h) \<Rightarrow> r = Some p \<and> store st1 = h \<and> cached st1 k = Some p \<and>
                                   built st1 = built st @ [k]
                  | None \<Rightarrow> r = None \<and> store st1 = store st \<and> cached st1 k = None \<and>
                            built st1 = built st)) \<and>
            (\<forall>k'. k' \<noteq> k \<longrightarrow> cached st1 k' = cached st k') \<and>
            (\<forall>name flds. cached st k = None \<and> strip_ptr t = Struct name flds \<longrightarrow>
               (\<exists>p. r = Some p \<and>
                    Columns (store st1) p =
                      Some (List.map_filter (field_column (tn (Struct name flds)))
                              (enumerate 0 flds))))) \<and>
         (case resolve_all tn st calls of (rs, st') \<Rightarrow>
            cache_inv st' \<and>
            (\<forall>k. count_list (built st') k \<le> 1) \<and>
            (\<forall>i<length calls. \<forall>p. rs ! i = Some p \<longrightarrow>
               cached st' (fst (calls ! i)) = Some p) \<and>
            (\<forall>i<length calls. \<forall>j<length calls.
               fst (calls ! i) = fst (calls ! j) \<longrightarrow> rs ! i \<noteq> None \<longrightarrow> rs ! j \<noteq> None \<longrightarrow>
               rs ! i = rs ! j) \<and>
            (\<forall>i<length calls. rs ! i \<noteq> None \<longrightarrow> count_list (built st') (fst (calls ! i)) = 1))"
proof (rule conjI)
  obtain r st1 where c: "getCachedColumnCollectionFromType tn st k t = (r, st1)"
    by (cases "getCachedColumnCollectionFromType tn st k t")
  note s = getCached_step [OF inv c]
  have 1: "cache_inv st1" using s by simp
  have 2: "(case cached st k of
               Some p \<Rightarrow> r = Some p \<and> st1 = st
             | None \<Rightarrow>
                 (case generateColumnCollectionForType tn (store st) t of
                    Some (p, h) \<Rightarrow> r = Some p \<and> store st1 = h \<and> cached st1 k = Some p \<and>
                                   built st1 = built st @ [k]
                  | None \<Rightarrow> r = None \<and> store st1 = store st \<and> cached st1 k = None \<and>
                            built st1 = built st))"
  proof (cases "cached st k")
    case (Some p)
    with getCached_hit [OF Some, of tn t] c show ?thesis by simp
  next
    case None
    note miss = getCached_miss [OF None, of tn t]
    show ?thesis
    proof (cases "generateColumnCollectionForType tn (store st) t")
      case None
      with miss c \<open>cached st k = None\<close> show ?thesis by auto
    next
      case (Some ph)
      obtain p h where "ph = (p, h)" by (cases ph)
      with miss c Some \<open>cached st k = None\<close> show ?thesis by auto
    qed
  qed
  have 3: "\<forall>k'. k' \<noteq> k \<longrightarrow> cached st1 k' = cached st k'"
    using getCached_other [OF c] by blast
  have 4: "\<forall>name flds. cached st k = None \<and> strip_ptr t = Struct name flds \<longrightarrow>
               (\<exists>p. r = Some p \<and>
                    Columns (store st1) p =
                      Some (List.map_filter (field_column (tn (Struct name flds)))
                              (enumerate 0 flds)))"
    using getCached_struct [OF _ _ c] by blast
  from 1 2 3 4 show "case getCachedColumnCollectionFromType tn st k t of (r, st1) \<Rightarrow>
            cache_inv st1 \<and>
            (case cached st k of
               Some p \<Rightarrow> r = Some p \<and> st1 = st
             | None \<Rightarrow>
                 (case generateColumnCollectionForType tn (store st) t of
                    Some (p, h) \<Rightarrow> r = Some p \<and> store st1 = h \<and> cached st1 k = Some p \<and>
                                   built st1 = built st @ [k]
                  | None \<Rightarrow> r = None \<and> store st1 = store st \<and> cached st1 k = None \<and>
                            built st1 = built st)) \<and>
            (\<forall>k'. k' \<noteq> k \<longrightarrow> cached st1 k' = cached st k') \<and>
            (\<forall>name flds. cached st k = None \<and> strip_ptr t = Struct name flds \<longrightarrow>
               (\<exists>p. r = Some p \<and>
                    Columns (store st1) p =
                      Some (List.map_filter (field_column (tn (Struct name flds)))
                              (enumerate 0 flds))))"
    unfolding c by simp
next
  obtain rs st' where c: "resolve_all tn st calls = (rs, st')"
    by (cases "resolve_all tn st calls")
  note run = resolve_all_run [OF inv c]
  from run have inv': "cache_inv st'" by simp
  have res: "cached st' (fst (calls ! i)) = Some p" if "i < length calls" "rs ! i = Some p" for i p
    using run that by blast
  have 0: "\<forall>i<length calls. \<forall>p. rs ! i = Some p \<longrightarrow> cached st' (fst (calls ! i)) = Some p"
    using res by blast
  have 1: "\<forall>k. count_list (built st') k \<le> 1"
    using inv' by (simp add: cache_inv_def distinct_count_list)
  have 2: "\<forall>i<length calls. \<forall>j<length calls.
               fst (calls ! i) = fst (calls ! j) \<longrightarrow> rs ! i \<noteq> None \<longrightarrow> rs ! j \<noteq> None \<longrightarrow>
               rs ! i = rs ! j"
  proof (intro allI impI)
    fix i j
    assume ij: "i < length calls" "j < length calls" "fst (calls ! i) = fst (calls ! j)"
      and "rs ! i \<noteq> None" "rs ! j \<noteq> None"
    then obtain p q where pq: "rs ! i = Some p" "rs ! j = Some q" by auto
    from res [OF ij(1) pq(1)] res [OF ij(2) pq(2)] ij(3) have "p = q" by simp
    with pq show "rs ! i = rs ! j" by simp
  qed
  have 3: "\<forall>i<length calls. rs ! i \<noteq> None \<longrightarrow> count_list (built st') (fst (calls ! i)) = 1"
  proof (intro allI impI)
    fix i assume i: "i < length calls" and "rs ! i \<noteq> None"
    then obtain p where "rs ! i = Some p" by auto
    from res [OF i this] have "fst (calls ! i) \<in> set (built st')"
      using inv' by (simp add: cache_inv_def)
    with inv' show "count_list (built st') (fst (calls ! i)) = 1"
      by (simp add: cache_inv_def distinct_count_list)
  qed
  from inv' 0 1 2 3 show "case resolve_all tn st calls of (rs, st') \<Rightarrow>
            cache_inv st' \<and>
            (\<forall>k. count_list (built st') k \<le> 1) \<and>
            (\<forall>i<length calls. \<forall>p. rs ! i = Some p \<longrightarrow>
               cached st' (fst (calls ! i)) = Some p) \<and>
            (\<forall>i<length calls. \<forall>j<length calls.
               fst (calls ! i) = fst (calls ! j) \<longrightarrow> rs ! i \<noteq> None \<longrightarrow> rs ! j \<noteq> None \<longrightarrow>
               rs ! i = rs ! j) \<and>
            (\<forall>i<length calls. rs ! i \<noteq> None \<longrightarrow> count_list (built st') (fst (calls ! i)) = 1)"
    unfolding c by simp
qed

lemma resolve_subStruct_twice:
  "fst (resolve_all testTableName state0
          [(''db.subStruct'', subStruct), (''db.subStruct'', Ptr subStruct)]) = [Some 1, Some 1]"
  by code_simp

lemma subStruct_columns:
  "map ColumnName (List.map_filter (field_column (testTableName subStruct))
     (enumerate 0 [StructField ''Foo'' (Basic ''string'') [] False])) = [''foo'']"
  by code_simp

theorem metaCache_builds_once_witness:
  "cache_inv state0 \<and>
   fst (getCachedColumnCollectionFromType testTableName state0 ''db.subStruct'' subStruct) = Some 1 \<and>
   map_option (map ColumnName)
     (Columns (store (snd (getCachedColumnCollectionFromType testTableName state0
                             ''db.subStruct'' subStruct))) 1) = Some [''foo''] \<and>
   fst (resolve_all testTableName state0
          [(''db.subStruct'', subStruct), (''db.subStruct'', Ptr subStruct)]) = [Some 1, Some 1] \<and>
   count_list (built (snd (resolve_all testTableName state0
          [(''db.subStruct'', subStruct), (''db.subStruct'', Ptr subStruct)]))) ''db.subStruct'' = 1"
proof -
  let ?calls = "[(''db.subStruct'', subStruct), (''db.subStruct'', Ptr subStruct)]"
  have inv: "cache_inv state0"
    by (simp add: cache_inv_def state0_def cached_def)
  have miss: "cached state0 ''db.subStruct'' = None"
    by (simp add: state0_def cached_def)
  have t: "strip_ptr subStruct = Struct ''db.subStruct'' [StructField ''Foo'' (Basic ''string'') [] False]"
    by (simp add: subStruct_def)
  obtain r st1 where c1: "getCachedColumnCollectionFromType testTableName state0 ''db.subStruct'' subStruct = (r, st1)"
    by (cases "getCachedColumnCollectionFromType testTableName state0 ''db.subStruct'' subStruct")
  have r1: "fst (getCachedColumnCollectionFromType testTableName state0 ''db.subStruct'' subStruct) = Some 1"
    by code_simp
  with c1 have r: "r = Some 1" by simp
  obtain rs st' where c: "resolve_all testTableName state0 ?calls = (rs, st')"
    by (cases "resolve_all testTableName state0 ?calls")
  with resolve_subStruct_twice have rs: "rs = [Some 1, Some 1]" by simp
  note main = metaCache_builds_once [OF inv, where tn = testTableName and k = "''db.subStruct''"
      and t = subStruct and calls = ?calls]
  from main have "\<forall>name flds. cached state0 ''db.subStruct'' = None \<and> strip_ptr subStruct = Struct name flds \<longrightarrow>
               (\<exists>p. r = Some p \<and>
                    Columns (store st1) p =
                      Some (List.map_filter (field_column (testTableName (Struct name flds)))
                              (enumerate 0 flds)))"
    unfolding c1 c by simp
  from this [rule_format, OF conjI [OF miss t]] r
  have "Columns (store st1) 1 = Some (List.map_filter (field_column (testTableName subStruct))
            (enumerate 0 [StructField ''Foo'' (Basic ''string'') [] False]))"
    by (simp add: subStruct_def)
  then have cols: "map_option (map ColumnName) (Columns (store st1) 1) = Some [''foo'']"
    by (simp only: option.map subStruct_columns)
  from main
  have "\<forall>i<length ?calls. rs ! i \<noteq> None \<longrightarrow> count_list (built st') (fst (?calls ! i)) = 1"
    unfolding c1 c by simp
  from this [rule_format, of 0] rs have "count_list (built st') ''db.subStruct'' = 1" by simp
  with inv rs c c1 r cols show ?thesis by simp
qed

section \<open>Column collections: what each operation writes\<close>

lemma same_prefix_refl [simp]: "same_prefix n x x"
  by (simp add: same_prefix_def split: option.splits)

lemma same_prefix_trans:
  "same_prefix n x y \<Longrightarrow> same_prefix n y z \<Longrightarrow> same_prefix n x z"
  by (auto simp: same_prefix_def split: option.splits)

lemma preserves_refl [simp]: "preserves b A n h h"
  by (simp add: preserves_def)

lemma preserves_trans:
  assumes "preserves b A n h1 h2" and "preserves b A n h2 h3"
  shows "preserves b A n h1 h3"
  unfolding preserves_def
proof (intro conjI allI impI)
  show "fresh h1 \<le> fresh h3" using assms by (simp add: preserves_def)
  show "spare h3 = spare h1" using assms by (simp add: preserves_def)
next
  fix a assume a: "a < b"
  from assms a show "vars h3 a = vars h1 a" by (simp add: preserves_def)
  from assms a show "maps h3 a = maps h1 a" by (simp add: preserves_def)
  from assms a show "objs h3 a = objs h1 a" by (simp add: preserves_def)
  show "if A = Some a then same_prefix n (arrays h1 a) (arrays h3 a)
        else arrays h3 a = arrays h1 a"
  proof (cases "A = Some a")
    case True
    with assms a have "same_prefix n (arrays h1 a) (arrays h2 a)"
      "same_prefix n (arrays h2 a) (arrays h3 a)"
      by (simp_all add: preserves_def)
    with True show ?thesis by (auto intro: same_prefix_trans)
  next
    case False
    with assms a show ?thesis by (simp add: preserves_def)
  qed
qed


lemma preservesD:
  assumes "preserves b A n h h'" and "a < b"
  shows "vars h' a = vars h a" and "maps h' a = maps h a" and "objs h' a = objs h a"
    and "A \<noteq> Some a \<Longrightarrow> arrays h' a = arrays h a"
    and "A = Some a \<Longrightarrow> same_prefix n (arrays h a) (arrays h' a)"
  using assms by (simp_all add: preserves_def)

lemma preserves_fresh: "preserves b A n h h' \<Longrightarrow> fresh h \<le> fresh h'"
  by (simp add: preserves_def)

text \<open>Writes that \<open>preserves\<close> allows.\<close>

lemma preserves_objs_upd:
  "b \<le> q \<Longrightarrow> preserves b A n h (h\<lparr>objs := (objs h)(q \<mapsto> cc)\<rparr>)"
  by (simp add: preserves_def)

lemma preserves_maps_upd:
  "b \<le> lk \<Longrightarrow> preserves b A n h (h\<lparr>maps := (maps h)(lk \<mapsto> m)\<rparr>)"
  by (simp add: preserves_def)

lemma preserves_new_var:
  "b \<le> fresh h \<Longrightarrow> preserves b A n h (h\<lparr>vars := (vars h)(fresh h \<mapsto> c), fresh := Suc (fresh h)\<rparr>)"
  by (simp add: preserves_def)

lemma preserves_new_array:
  "b \<le> fresh h \<Longrightarrow>
   preserves b A n h (h\<lparr>arrays := (arrays h)(fresh h \<mapsto> xs), fresh := Suc (fresh h)\<rparr>)"
  by (simp add: preserves_def)

lemma preserves_array_upd:
  assumes "arrays h a = Some xs" and "b \<le> a \<or> (A = Some a \<and> n \<le> i)"
  shows "preserves b A n h (h\<lparr>arrays := (arrays h)(a \<mapsto> xs[i := c])\<rparr>)"
  using assms by (auto simp: preserves_def same_prefix_def split: option.splits)

lemma slice_owned_nil [simp]: "slice_owned b A n h nilSlice"
  by (simp add: slice_owned_def slice_ok_def nilSlice_def)

lemma slice_ownedD: "slice_owned b A n h s \<Longrightarrow> slice_ok h s"
  by (simp add: slice_owned_def)

lemma append_owned:
  assumes own: "slice_owned b A n h s" and b: "b \<le> fresh h" and el: "slice_elems h s = Some xs"
  shows "\<exists>s' h'. append_col h s c = Some (s', h') \<and> slice_owned b A n h' s' \<and>
           preserves b A n h h' \<and> slice_elems h' s' = Some (xs @ [c]) \<and>
           vars h' = vars h \<and> maps h' = maps h \<and> objs h' = objs h"
proof (cases "sl_len s < sl_cap s")
  case True
  from own have ok: "slice_ok h s" by (rule slice_ownedD)
  with True obtain a ys where a: "sl_arr s = Some a" "arrays h a = Some ys" "sl_cap s = length ys"
    by (auto simp: slice_ok_def split: option.splits)
  from own a have a2: "a < fresh h" "b \<le> a \<or> (A = Some a \<and> n \<le> sl_len s)"
    by (simp_all add: slice_owned_def)
  define h' where "h' = h\<lparr>arrays := (arrays h)(a \<mapsto> ys[sl_len s := c])\<rparr>"
  define s' where "s' = s\<lparr>sl_len := Suc (sl_len s)\<rparr>"
  have app: "append_col h s c = Some (s', h')"
    using append_col_in_place [OF a True, of c] by (simp add: h'_def s'_def)
  have pres: "preserves b A n h h'"
    unfolding h'_def using a(2) a2(2) by (rule preserves_array_upd)
  from el a True have xs: "xs = take (sl_len s) ys"
    by (auto simp: slice_elems_def split: if_splits)
  have tk: "take (Suc (sl_len s)) (ys[sl_len s := c]) = take (sl_len s) ys @ [c]"
    using True a(3) by (simp add: take_Suc_conv_app_nth)
  have el': "slice_elems h' s' = Some (xs @ [c])"
    using a True xs tk by (simp add: slice_elems_def h'_def s'_def)
  have own': "slice_owned b A n h' s'"
    using a a2 True by (auto simp: slice_owned_def slice_ok_def h'_def s'_def)
  have rest: "vars h' = vars h" "maps h' = maps h" "objs h' = objs h"
    by (simp_all add: h'_def)
  from app own' pres el' rest show ?thesis by blast
next
  case False
  from own have ok: "slice_ok h s" by (rule slice_ownedD)
  have len: "length xs = sl_len s"
    using slice_ok_elems [OF ok] el by simp
  define ex where "ex = spare h (sl_cap s)"
  define h' where "h' = h\<lparr>arrays := (arrays h)(fresh h \<mapsto> xs @ [c] @ replicate ex zeroColumn),
                           fresh := Suc (fresh h)\<rparr>"
  define s' where "s' = \<lparr>sl_arr = Some (fresh h), sl_len = Suc (sl_len s),
                          sl_cap = Suc (sl_len s) + ex\<rparr>"
  have app: "append_col h s c = Some (s', h')"
    using append_col_grow [OF el False, of c] by (simp add: h'_def s'_def ex_def)
  have pres: "preserves b A n h h'"
    unfolding h'_def using b by (rule preserves_new_array)
  have el': "slice_elems h' s' = Some (xs @ [c])"
    using len by (simp add: slice_elems_def h'_def s'_def)
  have own': "slice_owned b A n h' s'"
    using len b by (simp add: slice_owned_def slice_ok_def h'_def s'_def)
  have rest: "vars h' = vars h" "maps h' = maps h" "objs h' = objs h"
    by (simp_all add: h'_def)
  from app own' pres el' rest show ?thesis by blast
qed

lemma Add_steps:
  assumes q: "objs h q = Some cc" and app: "append_col h (columns cc) c = Some (s', h1)"
    and o1: "objs h1 = objs h" and m1: "maps h1 = maps h"
    and lk: "lookup cc = Some lk" and m: "maps h lk = Some m"
  shows "Add h q c =
     Some (h1\<lparr>objs := (objs h1)(q \<mapsto> cc\<lparr>columns := s'\<rparr>),
              vars := (vars h1)(fresh h1 \<mapsto> c),
              fresh := Suc (fresh h1),
              maps := (maps h1)(lk \<mapsto> m(ColumnName c \<mapsto> VarPtr (fresh h1)))\<rparr>)"
  using assms
  by (simp add: Add_def upd_obj_def new_var_def map_store_def)

lemma slice_owned_mono:
  assumes "slice_owned b A n h s" and "arrays h' = arrays h" and "fresh h \<le> fresh h'"
  shows "slice_owned b A n h' s"
proof -
  have "slice_ok h' s" using assms(1) slice_ok_arrays [of s h' h] assms(2)
    by (simp add: slice_owned_def)
  with assms show ?thesis by (auto simp: slice_owned_def split: option.splits)
qed

lemma ownedD:
  assumes "owned b A n h q"
  shows "\<exists>cc lk m. objs h q = Some cc \<and> b \<le> q \<and> q < fresh h \<and>
           slice_owned b A n h (columns cc) \<and> lookup cc = Some lk \<and> b \<le> lk \<and> lk < fresh h \<and>
           maps h lk = Some m"
  using assms by (auto simp: owned_def split: option.splits)

lemma ownedI:
  assumes "objs h q = Some cc" and "b \<le> q" and "q < fresh h"
    and "slice_owned b A n h (columns cc)" and "lookup cc = Some lk" and "b \<le> lk"
    and "lk < fresh h" and "maps h lk = Some m"
  shows "owned b A n h q"
  using assms by (simp add: owned_def)

lemma Add_owned:
  assumes own: "owned b A n h q" and cols: "Columns h q = Some xs"
  shows "\<exists>h' cc s'. Add h q c = Some h' \<and> preserves b A n h h' \<and> owned b A n h' q \<and>
           Columns h' q = Some (xs @ [c]) \<and> objs h q = Some cc \<and>
           objs h' q = Some (cc\<lparr>columns := s'\<rparr>)"
proof -
  from ownedD [OF own] obtain cc lk m where
    q: "objs h q = Some cc" and bq: "b \<le> q" and qf: "q < fresh h"
    and so: "slice_owned b A n h (columns cc)" and lk: "lookup cc = Some lk"
    and blk: "b \<le> lk" and lkf: "lk < fresh h" and m: "maps h lk = Some m"
    by blast
  have bf: "b \<le> fresh h" using bq qf by simp
  have el: "slice_elems h (columns cc) = Some xs" using cols q by (simp add: Columns_def)
  from append_owned [OF so bf el, of c] obtain s' h1 where
    app: "append_col h (columns cc) c = Some (s', h1)"
    and so1: "slice_owned b A n h1 s'" and p1: "preserves b A n h h1"
    and el1: "slice_elems h1 s' = Some (xs @ [c])"
    and same: "vars h1 = vars h" "maps h1 = maps h" "objs h1 = objs h"
    by blast
  define h2 where "h2 = h1\<lparr>objs := (objs h1)(q \<mapsto> cc\<lparr>columns := s'\<rparr>)\<rparr>"
  define h3 where "h3 = h2\<lparr>vars := (vars h2)(fresh h2 \<mapsto> c), fresh := Suc (fresh h2)\<rparr>"
  define h4 where "h4 = h3\<lparr>maps := (maps h3)(lk \<mapsto> m(ColumnName c \<mapsto> VarPtr (fresh h1)))\<rparr>"
  have f1: "fresh h \<le> fresh h1" using p1 by (rule preserves_fresh)
  have add: "Add h q c = Some h4"
    using Add_steps [OF q app same(3) same(2) lk m]
    by (simp add: h4_def h3_def h2_def)
  have p2: "preserves b A n h1 h2" unfolding h2_def using bq by (rule preserves_objs_upd)
  have "b \<le> fresh h2" using bf f1 by (simp add: h2_def)
  then have p3: "preserves b A n h2 h3" unfolding h3_def by (rule preserves_new_var)
  have p4: "preserves b A n h3 h4" unfolding h4_def using blk by (rule preserves_maps_upd)
  have pres: "preserves b A n h h4"
    using p1 p2 p3 p4 by (blast intro: preserves_trans)
  have arr4: "arrays h4 = arrays h1" by (simp add: h4_def h3_def h2_def)
  have fr4: "fresh h4 = Suc (fresh h1)" by (simp add: h4_def h3_def h2_def)
  have obj4: "objs h4 q = Some (cc\<lparr>columns := s'\<rparr>)" by (simp add: h4_def h3_def h2_def)
  have map4: "maps h4 lk = Some (m(ColumnName c \<mapsto> VarPtr (fresh h1)))"
    by (simp add: h4_def h3_def h2_def)
  have so4: "slice_owned b A n h4 s'"
    using so1 arr4 fr4 by (intro slice_owned_mono [of b A n h1 s' h4]) simp_all
  have own4: "owned b A n h4 q"
    using obj4 bq qf f1 fr4 so4 lk blk lkf map4
    by (intro ownedI [of h4 q "cc\<lparr>columns := s'\<rparr>" b A n lk]) simp_all
  have cols4: "Columns h4 q = Some (xs @ [c])"
    using obj4 el1 slice_elems_arrays [of s' h4 h1] arr4 by (simp add: Columns_def)
  from add pres own4 cols4 q obj4 show ?thesis by blast
qed

lemma has_colsD:
  assumes "has_cols h p xs"
  shows "\<exists>cc. objs h p = Some cc \<and> p < fresh h \<and> slice_ok h (columns cc) \<and>
           (\<forall>a. sl_arr (columns cc) = Some a \<longrightarrow> a < fresh h) \<and>
           slice_elems h (columns cc) = Some xs \<and> length xs = sl_len (columns cc)"
proof -
  from assms obtain cc where cc: "objs h p = Some cc" "p < fresh h" "slice_ok h (columns cc)"
    "case sl_arr (columns cc) of None \<Rightarrow> True | Some a \<Rightarrow> a < fresh h"
    "slice_elems h (columns cc) = Some xs"
    by (auto simp: has_cols_def split: option.splits)
  from slice_ok_elems [OF cc(3)] cc(5) have "length xs = sl_len (columns cc)" by simp
  with cc show ?thesis by (auto split: option.splits)
qed

lemma has_cols_Columns: "has_cols h p xs \<Longrightarrow> Columns h p = Some xs"
  by (auto simp: has_cols_def Columns_def split: option.splits)

lemma owned_has_cols:
  assumes "owned b A n h q" and "Columns h q = Some xs"
  shows "has_cols h q xs"
  using assms
  by (auto simp: owned_def has_cols_def slice_owned_def Columns_def split: option.splits)

text \<open>The elements that a slice shows stay readable while its array is left alone.\<close>

lemma slice_get_elems:
  assumes "slice_ok h s" and "slice_elems h s = Some xs" and "i < sl_len s"
  shows "slice_get h s i = Some (xs ! i)"
  using assms
  by (auto simp: slice_ok_def slice_elems_def slice_get_def split: option.splits if_splits)

lemma slice_get_preserved:
  assumes ok: "slice_ok h s" and el: "slice_elems h s = Some xs" and i: "i < sl_len s"
    and arr: "\<And>a. sl_arr s = Some a \<Longrightarrow> arrays h' a = arrays h a"
  shows "slice_get h' s i = Some (xs ! i)"
  using slice_get_elems [OF ok el i] slice_get_arrays [of s h' h i] arr by simp

lemma newColumnCollectionWithPrefix_eq:
  "newColumnCollectionWithPrefix h pfx =
     (Suc (fresh h),
      h\<lparr>maps := (maps h)(fresh h \<mapsto> Map.empty),
        objs := (objs h)(Suc (fresh h) \<mapsto> emptyCollection\<lparr>lookup := Some (fresh h), columnPrefix := pfx\<rparr>),
        fresh := Suc (Suc (fresh h))\<rparr>)"
  by (simp add: newColumnCollectionWithPrefix_def new_map_def new_obj_def)

lemma no_memo_empty [simp]: "no_memo (emptyCollection\<lparr>lookup := l, columnPrefix := pfx\<rparr>)"
  by (simp add: no_memo_def emptyCollection_def)

lemma no_memo_columns [simp]: "no_memo (cc\<lparr>columns := s\<rparr>) = no_memo cc"
  by (simp add: no_memo_def)

lemma subset_of_ok:
  assumes hc: "has_cols h p xs" and p: "objs h p = Some cc"
  shows "\<exists>q h' ccq. subset_of h p test = Some (q, h') \<and> preserves (fresh h) None 0 h h' \<and>
           owned (fresh h) None 0 h' q \<and> Columns h' q = Some (filter test xs) \<and>
           objs h' q = Some ccq \<and> no_memo ccq \<and> columnPrefix ccq = columnPrefix cc"
proof -
  from has_colsD [OF hc] p have pf: "p < fresh h" and ok: "slice_ok h (columns cc)"
    and arr: "\<And>a. sl_arr (columns cc) = Some a \<Longrightarrow> a < fresh h"
    and el: "slice_elems h (columns cc) = Some xs" and len: "length xs = sl_len (columns cc)"
    by auto
  define b where "b = fresh h"
  define q where "q = Suc (fresh h)"
  define cq where "cq = emptyCollection\<lparr>lookup := Some (fresh h), columnPrefix := columnPrefix cc\<rparr>"
  define h1 where "h1 = h\<lparr>maps := (maps h)(fresh h \<mapsto> Map.empty),
                          objs := (objs h)(q \<mapsto> cq),
                          fresh := Suc (Suc (fresh h))\<rparr>"
  have new: "newColumnCollectionWithPrefix h (columnPrefix cc) = (q, h1)"
    by (simp add: newColumnCollectionWithPrefix_eq q_def h1_def cq_def)
  have p1: "preserves b None 0 h h1"
    by (simp add: preserves_def b_def h1_def q_def)
  have cols_cq: "columns cq = nilSlice" by (simp add: cq_def emptyCollection_def)
  have own1: "owned b None 0 h1 q"
    by (rule ownedI [of h1 q cq b None 0 "fresh h"])
       (simp_all add: h1_def q_def b_def cols_cq, simp_all add: cq_def)
  have c1: "Columns h1 q = Some []"
    by (simp add: Columns_def h1_def cols_cq)
  let ?I = "\<lambda>i s. preserves b None 0 h s \<and> owned b None 0 s q \<and>
               Columns s q = Some (filter test (take i xs)) \<and>
               (\<exists>ccq. objs s q = Some ccq \<and> no_memo ccq \<and> columnPrefix ccq = columnPrefix cc)"
  have init: "?I 0 h1"
    using p1 own1 c1 by (simp add: h1_def cq_def)
  have step: "\<exists>s'. add_if test (columns cc) q i s = Some s' \<and> ?I (Suc i) s'"
    if i: "i < sl_len (columns cc)" and I: "?I i s" for i s
  proof -
    from I have ps: "preserves b None 0 h s" and os: "owned b None 0 s q"
      and cs: "Columns s q = Some (filter test (take i xs))"
      and ms: "\<exists>ccq. objs s q = Some ccq \<and> no_memo ccq \<and> columnPrefix ccq = columnPrefix cc"
      by blast+
    have "arrays s a = arrays h a" if "sl_arr (columns cc) = Some a" for a
      using preservesD(4) [OF ps, of a] arr [OF that] by (simp add: b_def)
    then have get: "slice_get s (columns cc) i = Some (xs ! i)"
      using slice_get_preserved [OF ok el i, of s] by blast
    have tk: "take (Suc i) xs = take i xs @ [xs ! i]"
      using i len by (simp add: take_Suc_conv_app_nth)
    show ?thesis
    proof (cases "test (xs ! i)")
      case False
      then have "add_if test (columns cc) q i s = Some s"
        using get by (simp add: add_if_def)
      moreover have "?I (Suc i) s" using I False tk by simp
      ultimately show ?thesis by blast
    next
      case True
      from Add_owned [OF os cs, of "xs ! i"] obtain s' ccq sl where
        add: "Add s q (xs ! i) = Some s'" and p': "preserves b None 0 s s'"
        and o': "owned b None 0 s' q"
        and c': "Columns s' q = Some (filter test (take i xs) @ [xs ! i])"
        and q0: "objs s q = Some ccq" and q1: "objs s' q = Some (ccq\<lparr>columns := sl\<rparr>)"
        by blast
      have "add_if test (columns cc) q i s = Some s'"
        using get True add by (simp add: add_if_def)
      moreover have "preserves b None 0 h s'" using ps p' by (rule preserves_trans)
      moreover have "Columns s' q = Some (filter test (take (Suc i) xs))"
        using c' True tk by simp
      moreover have "\<exists>ccq. objs s' q = Some ccq \<and> no_memo ccq \<and> columnPrefix ccq = columnPrefix cc"
        using ms q0 q1 by auto
      ultimately show ?thesis using o' by blast
    qed
  qed
  from for_each_upt_invariant [of ?I h1 "sl_len (columns cc)" "add_if test (columns cc) q",
      OF init step]
  obtain h2 where loop: "for_each (add_if test (columns cc) q) [0..<sl_len (columns cc)] h1 = Some h2"
    and I2: "?I (sl_len (columns cc)) h2"
    by blast
  have "subset_of h p test = Some (q, h2)"
    using p new loop by (simp add: subset_of_def)
  with I2 len show ?thesis by (auto simp: b_def)
qed

lemma has_cols_objs_upd:
  assumes "has_cols h q xs" and "q \<noteq> p"
  shows "has_cols (h\<lparr>objs := (objs h)(p \<mapsto> c)\<rparr>) q xs"
proof -
  let ?h' = "h\<lparr>objs := (objs h)(p \<mapsto> c)\<rparr>"
  from has_colsD [OF assms(1)] obtain cc where cc: "objs h q = Some cc" "q < fresh h"
    "slice_ok h (columns cc)" "\<forall>a. sl_arr (columns cc) = Some a \<longrightarrow> a < fresh h"
    "slice_elems h (columns cc) = Some xs"
    by blast
  have "slice_ok ?h' (columns cc)" using cc(3) slice_ok_arrays [of "columns cc" ?h' h] by simp
  moreover have "slice_elems ?h' (columns cc) = Some xs"
    using cc(5) slice_elems_arrays [of "columns cc" ?h' h] by simp
  ultimately show ?thesis using cc assms(2) by (auto simp: has_cols_def split: option.splits)
qed

text \<open>What holds once a subset has been collected and stored in its field of \<open>p\<close>.\<close>

lemma after_memo:
  assumes hc: "has_cols h p xs" and p: "objs h p = Some cc"
    and pres: "preserves (fresh h) None 0 h h1" and own: "owned (fresh h) None 0 h1 q"
    and cols: "Columns h1 q = Some ys" and q: "objs h1 q = Some ccq"
    and h': "h' = h1\<lparr>objs := (objs h1)(p \<mapsto> cc')\<rparr>"
  shows "upd_obj h1 p f = Some (h1\<lparr>objs := (objs h1)(p \<mapsto> f cc)\<rparr>)"
    and "fresh h \<le> q" and "fresh h \<le> fresh h'"
    and "\<forall>a<fresh h. arrays h' a = arrays h a \<and> vars h' a = vars h a \<and> maps h' a = maps h a \<and>
                      (a \<noteq> p \<longrightarrow> objs h' a = objs h a)"
    and "objs h' p = Some cc'" and "has_cols h' q ys" and "objs h' q = Some ccq"
proof -
  from has_colsD [OF hc] p have pf: "p < fresh h" by auto
  from ownedD [OF own] have bq: "fresh h \<le> q" by blast
  with pf have ne: "q \<noteq> p" by simp
  have p1: "objs h1 p = Some cc" using preservesD(3) [OF pres pf] p by simp
  show "upd_obj h1 p f = Some (h1\<lparr>objs := (objs h1)(p \<mapsto> f cc)\<rparr>)"
    using p1 by (simp add: upd_obj_def)
  show "fresh h \<le> q" by (rule bq)
  show "fresh h \<le> fresh h'" using preserves_fresh [OF pres] by (simp add: h')
  show "\<forall>a<fresh h. arrays h' a = arrays h a \<and> vars h' a = vars h a \<and> maps h' a = maps h a \<and>
                      (a \<noteq> p \<longrightarrow> objs h' a = objs h a)"
    using preservesD [OF pres] by (simp add: h')
  show "objs h' p = Some cc'" by (simp add: h')
  have "has_cols h1 q ys" using own cols by (rule owned_has_cols)
  then show "has_cols h' q ys" unfolding h' using ne by (rule has_cols_objs_upd)
  show "objs h' q = Some ccq" using q ne by (simp add: h')
qed

lemma NotReadOnly_ok:
  assumes hc: "has_cols h p xs" and p: "objs h p = Some cc" and memo: "notReadOnly cc = None"
  shows "\<exists>q h' ccq. NotReadOnly h p = Some (q, h') \<and> fresh h \<le> q \<and> fresh h \<le> fresh h' \<and>
           (\<forall>a<fresh h. arrays h' a = arrays h a \<and> vars h' a = vars h a \<and> maps h' a = maps h a \<and>
                         (a \<noteq> p \<longrightarrow> objs h' a = objs h a)) \<and>
           objs h' p = Some (cc\<lparr>notReadOnly := Some q\<rparr>) \<and>
           has_cols h' q (filter (\<lambda>c. \<not> IsReadOnly c) xs) \<and>
           objs h' q = Some ccq \<and> no_memo ccq"
proof -
  from subset_of_ok [OF hc p, of "\<lambda>c. \<not> IsReadOnly c"] obtain q h1 ccq where
    sub: "subset_of h p (\<lambda>c. \<not> IsReadOnly c) = Some (q, h1)"
    and pres: "preserves (fresh h) None 0 h h1" and own: "owned (fresh h) None 0 h1 q"
    and cols: "Columns h1 q = Some (filter (\<lambda>c. \<not> IsReadOnly c) xs)"
    and q: "objs h1 q = Some ccq" and nm: "no_memo ccq"
    by blast
  define h' where "h' = h1\<lparr>objs := (objs h1)(p \<mapsto> cc\<lparr>notReadOnly := Some q\<rparr>)\<rparr>"
  note am = after_memo [OF hc p pres own cols q h'_def]
  have "NotReadOnly h p = Some (q, h')"
    using p memo sub am(1) [of "\<lambda>obj. obj\<lparr>notReadOnly := Some q\<rparr>"]
    by (simp add: NotReadOnly_def h'_def)
  with am(2-7) nm show ?thesis by blast
qed

lemma NotPrimaryKeys_ok:
  assumes hc: "has_cols h p xs" and p: "objs h p = Some cc" and memo: "notPrimaryKeys cc = None"
  shows "\<exists>q h' ccq. NotPrimaryKeys h p = Some (q, h') \<and> fresh h \<le> q \<and> fresh h \<le> fresh h' \<and>
           (\<forall>a<fresh h. arrays h' a = arrays h a \<and> vars h' a = vars h a \<and> maps h' a = maps h a \<and>
                         (a \<noteq> p \<longrightarrow> objs h' a = objs h a)) \<and>
           objs h' p = Some (cc\<lparr>notPrimaryKeys := Some q\<rparr>) \<and>
           has_cols h' q (filter (\<lambda>c. \<not> IsPrimaryKey c) xs) \<and>
           objs h' q = Some ccq \<and> no_memo ccq"
proof -
  from subset_of_ok [OF hc p, of "\<lambda>c. \<not> IsPrimaryKey c"] obtain q h1 ccq where
    sub: "subset_of h p (\<lambda>c. \<not> IsPrimaryKey c) = Some (q, h1)"
    and pres: "preserves (fresh h) None 0 h h1" and own: "owned (fresh h) None 0 h1 q"
    and cols: "Columns h1 q = Some (filter (\<lambda>c. \<not> IsPrimaryKey c) xs)"
    and q: "objs h1 q = Some ccq" and nm: "no_memo ccq"
    by blast
  define h' where "h' = h1\<lparr>objs := (objs h1)(p \<mapsto> cc\<lparr>notPrimaryKeys := Some q\<rparr>)\<rparr>"
  note am = after_memo [OF hc p pres own cols q h'_def]
  have "NotPrimaryKeys h p = Some (q, h')"
    using p memo sub am(1) [of "\<lambda>obj. obj\<lparr>notPrimaryKeys := Some q\<rparr>"]
    by (simp add: NotPrimaryKeys_def h'_def)
  with am(2-7) nm show ?thesis by blast
qed

lemma PrimaryKeys_ok:
  assumes hc: "has_cols h p xs" and p: "objs h p = Some cc" and memo: "primaryKeys cc = None"
  shows "\<exists>q h' ccq. PrimaryKeys h p = Some (q, h') \<and> fresh h \<le> q \<and> fresh h \<le> fresh h' \<and>
           (\<forall>a<fresh h. arrays h' a = arrays h a \<and> vars h' a = vars h a \<and> maps h' a = maps h a \<and>
                         (a \<noteq> p \<longrightarrow> objs h' a = objs h a)) \<and>
           objs h' p = Some (cc\<lparr>primaryKeys := Some q\<rparr>) \<and>
           has_cols h' q (filter IsPrimaryKey xs) \<and>
           objs h' q = Some ccq \<and> no_memo ccq"
proof -
  from subset_of_ok [OF hc p, of IsPrimaryKey] obtain q h1 ccq where
    sub: "subset_of h p IsPrimaryKey = Some (q, h1)"
    and pres: "preserves (fresh h) None 0 h h1" and own: "owned (fresh h) None 0 h1 q"
    and cols: "Columns h1 q = Some (filter IsPrimaryKey xs)"
    and q: "objs h1 q = Some ccq" and nm: "no_memo ccq"
    by blast
  define h' where "h' = h1\<lparr>objs := (objs h1)(p \<mapsto> cc\<lparr>primaryKeys := Some q\<rparr>)\<rparr>"
  note am = after_memo [OF hc p pres own cols q h'_def]
  have "PrimaryKeys h p = Some (q, h')"
    using p memo sub am(1) [of "\<lambda>obj. obj\<lparr>primaryKeys := Some q\<rparr>"]
    by (simp add: PrimaryKeys_def h'_def)
  with am(2-7) nm show ?thesis by blast
qed

text \<open>A collection keeps its columns while its array and its slice are left alone.\<close>

lemma has_cols_stable:
  assumes hc: "has_cols h p xs" and p: "objs h p = Some cc" and p': "objs h' p = Some cc'"
    and c: "columns cc' = columns cc" and f: "fresh h \<le> fresh h'"
    and arr: "\<forall>a<fresh h. arrays h' a = arrays h a"
  shows "has_cols h' p xs"
proof -
  from has_colsD [OF hc] p have cc: "p < fresh h" "slice_ok h (columns cc)"
    "\<forall>a. sl_arr (columns cc) = Some a \<longrightarrow> a < fresh h" "slice_elems h (columns cc) = Some xs"
    by auto
  have same: "arrays h' a = arrays h a" if "sl_arr (columns cc) = Some a" for a
    using arr cc(3) that by simp
  have "slice_ok h' (columns cc)" using cc(2) slice_ok_arrays [of "columns cc" h' h] same by simp
  moreover have "slice_elems h' (columns cc) = Some xs"
    using cc(4) slice_elems_arrays [of "columns cc" h' h] same by simp
  ultimately show ?thesis using cc p' c f by (auto simp: has_cols_def split: option.splits)
qed

lemma copy_step_list:
  assumes "length pre = off" and "i < length ys" and "i < length rest"
  shows "(pre @ take i ys @ drop i rest)[off + i := ys ! i] =
         pre @ take (Suc i) ys @ drop (Suc i) rest"
proof -
  have d: "drop i rest = rest ! i # drop (Suc i) rest"
    using assms(3) by (simp add: Cons_nth_drop_Suc)
  have t: "take (Suc i) ys = take i ys @ [ys ! i]"
    using assms(2) by (simp add: take_Suc_conv_app_nth)
  have "(pre @ take i ys @ drop i rest)[off + i := ys ! i] =
        pre @ take i ys @ (drop i rest)[0 := ys ! i]"
    using assms(1,2) by (simp add: list_update_append)
  then show ?thesis by (simp add: d t)
qed

text \<open>A copying loop writes the source's elements into the target array, and nothing else.\<close>

lemma copy_loop:
  assumes ok: "slice_ok h src" and el: "slice_elems h src = Some ys"
    and ne: "\<And>a'. sl_arr src = Some a' \<Longrightarrow> a' \<noteq> a"
    and arr: "arrays h a = Some (pre @ rest)" and off: "length pre = off"
    and room: "length ys \<le> length rest"
    and tot: "sl_arr tot = Some a" "sl_len tot = length pre + length rest"
  shows "for_each (copy_elem src tot off) [0..<sl_len src] h =
           Some (h\<lparr>arrays := (arrays h)(a \<mapsto> pre @ ys @ drop (length ys) rest)\<rparr>)"
proof -
  have len: "length ys = sl_len src" using slice_ok_elems [OF ok] el by simp
  let ?I = "\<lambda>i s. s = h\<lparr>arrays := (arrays h)(a \<mapsto> pre @ take i ys @ drop i rest)\<rparr>"
  have init: "?I 0 h" using arr by (simp add: fun_upd_idem)
  have step: "\<exists>s'. copy_elem src tot off i s = Some s' \<and> ?I (Suc i) s'"
    if i: "i < sl_len src" and I: "?I i s" for i s
  proof -
    have same: "arrays s a' = arrays h a'" if "sl_arr src = Some a'" for a'
      using I ne [OF that] by simp
    have get: "slice_get s src i = Some (ys ! i)"
      using slice_get_preserved [OF ok el i, of s] same by blast
    have sa: "arrays s a = Some (pre @ take i ys @ drop i rest)" using I by simp
    have bound: "off + i < length (pre @ take i ys @ drop i rest)"
      using i len room off by simp
    have bound2: "off + i < sl_len tot" using i len room off tot(2) by simp
    have set: "slice_set s tot (off + i) (ys ! i) =
                 Some (s\<lparr>arrays := (arrays s)(a \<mapsto> (pre @ take i ys @ drop i rest)[off + i := ys ! i])\<rparr>)"
      using sa bound bound2 tot(1) by (simp add: slice_set_def)
    have upd: "(pre @ take i ys @ drop i rest)[off + i := ys ! i] =
                 pre @ take (Suc i) ys @ drop (Suc i) rest"
      using off i len room by (intro copy_step_list) simp_all
    have "copy_elem src tot off i s =
            Some (s\<lparr>arrays := (arrays s)(a \<mapsto> pre @ take (Suc i) ys @ drop (Suc i) rest)\<rparr>)"
      using get set upd by (simp add: copy_elem_def)
    moreover have "s\<lparr>arrays := (arrays s)(a \<mapsto> pre @ take (Suc i) ys @ drop (Suc i) rest)\<rparr> =
                   h\<lparr>arrays := (arrays h)(a \<mapsto> pre @ take (Suc i) ys @ drop (Suc i) rest)\<rparr>"
      using I by simp
    ultimately show ?thesis by simp
  qed
  from for_each_upt_invariant [of ?I h "sl_len src" "copy_elem src tot off", OF init step]
  show ?thesis using len by simp
qed

lemma ConcatWith_ok:
  assumes r: "has_cols h r xs" and o: "has_cols h other ys"
  shows "\<exists>u h'. ConcatWith h r other = Some (u, h') \<and> fresh h \<le> u \<and> fresh h \<le> fresh h' \<and>
           (\<forall>a<fresh h. arrays h' a = arrays h a \<and> vars h' a = vars h a \<and>
                         maps h' a = maps h a \<and> objs h' a = objs h a) \<and>
           has_cols h' u (xs @ ys)"
proof -
  from has_colsD [OF r] obtain cc where cc: "objs h r = Some cc" "slice_ok h (columns cc)"
    "\<forall>a. sl_arr (columns cc) = Some a \<longrightarrow> a < fresh h" "slice_elems h (columns cc) = Some xs"
    "length xs = sl_len (columns cc)"
    by blast
  from has_colsD [OF o] obtain oc where oc: "objs h other = Some oc" "slice_ok h (columns oc)"
    "\<forall>a. sl_arr (columns oc) = Some a \<longrightarrow> a < fresh h" "slice_elems h (columns oc) = Some ys"
    "length ys = sl_len (columns oc)"
    by blast
  define n where "n = sl_len (columns cc)"
  define m where "m = sl_len (columns oc)"
  define a where "a = fresh h"
  define tot where "tot = \<lparr>sl_arr = Some a, sl_len = n + m, sl_cap = n + m\<rparr>"
  define h1 where "h1 = h\<lparr>arrays := (arrays h)(a \<mapsto> replicate (n + m) zeroColumn), fresh := Suc a\<rparr>"
  define h2 where "h2 = h1\<lparr>arrays := (arrays h1)(a \<mapsto> xs @ replicate m zeroColumn)\<rparr>"
  define h3 where "h3 = h2\<lparr>arrays := (arrays h2)(a \<mapsto> xs @ ys)\<rparr>"
  have lx: "length xs = n" and ly: "length ys = m" using cc(5) oc(5) by (simp_all add: n_def m_def)
  have start: "ConcatWith h r other =
      do { h2 \<leftarrow> for_each (copy_elem (columns cc) tot 0) [0..<n] h1;
           h3 \<leftarrow> for_each (copy_elem (columns oc) tot n) [0..<m] h2;
           newColumnCollectionFromColumns h3 tot }"
    using cc(1) oc(1)
    by (simp add: ConcatWith_def new_array_def Let_def n_def m_def a_def tot_def h1_def)
  \<comment> \<open>the sources are older than the new array\<close>
  have old1: "arrays h1 a' = arrays h a'" if "sl_arr s = Some a'" "a' < fresh h" for s :: slice and a'
    using that by (simp add: h1_def a_def)
  have ok1: "slice_ok h1 (columns cc)"
    using cc(2) slice_ok_arrays [of "columns cc" h1 h] old1 cc(3) by simp
  have el1: "slice_elems h1 (columns cc) = Some xs"
    using cc(4) slice_elems_arrays [of "columns cc" h1 h] old1 cc(3) by simp
  have ne1: "a' \<noteq> a" if "sl_arr (columns cc) = Some a'" for a'
    using cc(3) that by (auto simp: a_def)
  have arr1: "arrays h1 a = Some ([] @ replicate (n + m) zeroColumn)" by (simp add: h1_def)
  have loop1: "for_each (copy_elem (columns cc) tot 0) [0..<n] h1 = Some h2"
  proof -
    have "for_each (copy_elem (columns cc) tot 0) [0..<sl_len (columns cc)] h1 =
           Some (h1\<lparr>arrays := (arrays h1)(a \<mapsto> [] @ xs @ drop (length xs) (replicate (n + m) zeroColumn))\<rparr>)"
      using ok1 el1 ne1 arr1
      by (rule copy_loop) (simp_all add: lx tot_def)
    then show ?thesis by (simp add: h2_def lx n_def)
  qed
  have old2: "arrays h2 a' = arrays h a'" if "a' < fresh h" for a'
    using that by (simp add: h2_def h1_def a_def)
  have ok2: "slice_ok h2 (columns oc)"
    using oc(2) slice_ok_arrays [of "columns oc" h2 h] old2 oc(3) by simp
  have el2: "slice_elems h2 (columns oc) = Some ys"
    using oc(4) slice_elems_arrays [of "columns oc" h2 h] old2 oc(3) by simp
  have ne2: "a' \<noteq> a" if "sl_arr (columns oc) = Some a'" for a'
    using oc(3) that by (auto simp: a_def)
  have arr2: "arrays h2 a = Some (xs @ replicate m zeroColumn)" by (simp add: h2_def)
  have loop2: "for_each (copy_elem (columns oc) tot n) [0..<m] h2 = Some h3"
  proof -
    have "for_each (copy_elem (columns oc) tot n) [0..<sl_len (columns oc)] h2 =
           Some (h2\<lparr>arrays := (arrays h2)(a \<mapsto> xs @ ys @ drop (length ys) (replicate m zeroColumn))\<rparr>)"
      using ok2 el2 ne2 arr2
      by (rule copy_loop) (simp_all add: lx ly tot_def)
    then show ?thesis by (simp add: h3_def ly m_def)
  qed
  have arr3: "arrays h3 a = Some (xs @ ys)" by (simp add: h3_def)
  have fr3: "fresh h3 = Suc a" by (simp add: h3_def h2_def h1_def)
  have ok3: "slice_ok h3 tot" using arr3 lx ly by (simp add: slice_ok_def tot_def)
  have el3: "slice_elems h3 tot = Some (xs @ ys)"
    using arr3 lx ly by (simp add: slice_elems_def tot_def)
  from newColumnCollectionWithPrefixFromColumns_ok [OF ok3, of "[]"] obtain mp where
    nc: "newColumnCollectionFromColumns h3 tot =
           Some (fresh h3,
                 h3\<lparr>objs := (objs h3)(fresh h3 \<mapsto>
                            emptyCollection\<lparr>columns := tot, columnPrefix := [],
                                            lookup := Some (Suc (fresh h3))\<rparr>),
                   maps := (maps h3)(Suc (fresh h3) \<mapsto> mp),
                   fresh := Suc (Suc (fresh h3))\<rparr>)"
    unfolding newColumnCollectionFromColumns_eq by blast
  define u where "u = fresh h3"
  define cu where "cu = emptyCollection\<lparr>columns := tot, columnPrefix := [],
                                            lookup := Some (Suc (fresh h3))\<rparr>"
  define h4 where "h4 = h3\<lparr>objs := (objs h3)(u \<mapsto> cu), maps := (maps h3)(Suc u \<mapsto> mp),
                           fresh := Suc (Suc u)\<rparr>"
  have res: "ConcatWith h r other = Some (u, h4)"
    using start loop1 loop2 nc by (simp add: u_def cu_def h4_def)
  have arr4: "arrays h4 = arrays h3" by (simp add: h4_def)
  have frame: "\<forall>a'<fresh h. arrays h4 a' = arrays h a' \<and> vars h4 a' = vars h a' \<and>
                         maps h4 a' = maps h a' \<and> objs h4 a' = objs h a'"
    by (simp add: h4_def h3_def h2_def h1_def a_def u_def)
  have cols_cu: "columns cu = tot" by (simp add: cu_def)
  have "slice_ok h4 tot" using ok3 slice_ok_arrays [of tot h4 h3] arr4 by simp
  moreover have "slice_elems h4 tot = Some (xs @ ys)"
    using el3 slice_elems_arrays [of tot h4 h3] arr4 by simp
  moreover have "objs h4 u = Some cu" by (simp add: h4_def)
  moreover have "u < fresh h4" by (simp add: h4_def)
  moreover have "a < fresh h4" by (simp add: h4_def u_def fr3)
  ultimately have hu: "has_cols h4 u (xs @ ys)"
    by (simp add: has_cols_def cols_cu) (simp add: tot_def)
  have "fresh h \<le> u" by (simp add: u_def fr3 a_def)
  moreover have "fresh h \<le> fresh h4" by (simp add: h4_def u_def fr3 a_def)
  ultimately show ?thesis using res frame hu by blast
qed

lemma filter_writable:
  "filter (\<lambda>c. \<not> IsPrimaryKey c) (filter (\<lambda>c. \<not> IsReadOnly c) xs) = filter writable xs"
  by (induction xs) (auto simp: writable_def)

lemma upd_obj_Some: "objs h p = Some cc \<Longrightarrow> upd_obj h p f = Some (h\<lparr>objs := (objs h)(p \<mapsto> f cc)\<rparr>)"
  by (simp add: upd_obj_def)












lemma add_field_loop_owned:
  assumes "slice_owned 0 None 0 h cols" and "slice_elems h cols = Some acc"
  shows "\<exists>cols' h'. for_each (add_field tn) ixfs (cols, h) = Some (cols', h') \<and>
           slice_owned 0 None 0 h' cols' \<and>
           slice_elems h' cols' = Some (acc @ List.map_filter (field_column tn) ixfs)"
  using assms
proof (induction ixfs arbitrary: cols h acc)
  case Nil
  then show ?case by (simp add: List.map_filter_simps)
next
  case (Cons ixf ixfs)
  have "\<exists>cols1 h1. add_field tn ixf (cols, h) = Some (cols1, h1) \<and>
          slice_owned 0 None 0 h1 cols1 \<and>
          slice_elems h1 cols1 = Some (acc @ (case field_column tn ixf of None \<Rightarrow> [] | Some c \<Rightarrow> [c]))"
  proof (cases "field_column tn ixf")
    case None
    then have "add_field tn ixf (cols, h) = Some (cols, h)"
      by (auto simp: add_field_def field_column_def split: prod.splits if_splits option.splits)
    with Cons.prems None show ?thesis by simp
  next
    case (Some c)
    then have "add_field tn ixf (cols, h) = append_col h cols c"
      by (auto simp: add_field_def field_column_def split: prod.splits if_splits option.splits)
    with append_owned [OF Cons.prems(1) _ Cons.prems(2), of c] Some show ?thesis by auto
  qed
  then obtain cols1 h1 where
    1: "add_field tn ixf (cols, h) = Some (cols1, h1)" "slice_owned 0 None 0 h1 cols1"
       "slice_elems h1 cols1 = Some (acc @ (case field_column tn ixf of None \<Rightarrow> [] | Some c \<Rightarrow> [c]))"
    by blast
  from Cons.IH [OF 1(2,3)] obtain cols2 h2 where
    2: "for_each (add_field tn) ixfs (cols1, h1) = Some (cols2, h2)"
       "slice_owned 0 None 0 h2 cols2"
       "slice_elems h2 cols2 =
          Some ((acc @ (case field_column tn ixf of None \<Rightarrow> [] | Some c \<Rightarrow> [c])) @
                List.map_filter (field_column tn) ixfs)"
    by blast
  have "for_each (add_field tn) (ixf # ixfs) (cols, h) = Some (cols2, h2)"
    using 1(1) 2(1) by simp
  moreover have "(acc @ (case field_column tn ixf of None \<Rightarrow> [] | Some c \<Rightarrow> [c])) @
                List.map_filter (field_column tn) ixfs =
                acc @ List.map_filter (field_column tn) (ixf # ixfs)"
    by (simp add: List.map_filter_simps split: option.splits)
  ultimately show ?case using 2 by simp
qed

text \<open>The collection that the cache builds for a struct type is well formed.\<close>

lemma generate_cc_ok:
  assumes t: "strip_ptr t = Struct name flds"
  shows "\<exists>p h' cc. generateColumnCollectionForType tn h t = Some (p, h') \<and> cc_ok h' p \<and>
           has_cols h' p (List.map_filter (field_column (tn (Struct name flds))) (enumerate 0 flds)) \<and>
           objs h' p = Some cc \<and> no_memo cc \<and> columnPrefix cc = []"
proof -
  let ?tn = "tn (Struct name flds)"
  let ?xs = "List.map_filter (field_column ?tn) (enumerate 0 flds)"
  from add_field_loop_owned [of h nilSlice "[]" ?tn "enumerate 0 flds"] obtain cols h1 where
    loop: "for_each (add_field ?tn) (enumerate 0 flds) (nilSlice, h) = Some (cols, h1)"
    and so: "slice_owned 0 None 0 h1 cols" and el: "slice_elems h1 cols = Some ?xs"
    by auto
  have ok: "slice_ok h1 cols" using so by (rule slice_ownedD)
  have af: "a < fresh h1" if "sl_arr cols = Some a" for a
    using so that by (simp add: slice_owned_def)
  define p where "p = fresh h1"
  define cc where "cc = emptyCollection\<lparr>columns := cols, columnPrefix := [],
                                        lookup := Some (Suc (fresh h1))\<rparr>"
  from newColumnCollectionWithPrefixFromColumns_ok [OF ok, of "[]"] obtain m' where
    nc: "newColumnCollectionFromColumns h1 cols =
           Some (p, h1\<lparr>objs := (objs h1)(p \<mapsto> cc), maps := (maps h1)(Suc p \<mapsto> m'),
                       fresh := Suc (Suc p)\<rparr>)"
    and ptrs: "\<forall>k ptr. m' k = Some ptr \<longrightarrow>
                 (\<exists>a j. sl_arr cols = Some a \<and> j < sl_len cols \<and> ptr = ElemPtr a j)"
    unfolding newColumnCollectionFromColumns_eq p_def cc_def by blast
  define h2 where "h2 = h1\<lparr>objs := (objs h1)(p \<mapsto> cc), maps := (maps h1)(Suc p \<mapsto> m'),
                           fresh := Suc (Suc p)\<rparr>"
  have gen: "generateColumnCollectionForType tn h t = Some (p, h2)"
    using t loop nc by (simp add: generateColumnCollectionForType_def h2_def)
  have arr: "arrays h2 = arrays h1" by (simp add: h2_def)
  have fr: "fresh h2 = Suc (Suc (fresh h1))" by (simp add: h2_def p_def)
  have obj: "objs h2 p = Some cc" by (simp add: h2_def)
  have mp: "maps h2 (Suc p) = Some m'" by (simp add: h2_def)
  have cols_cc: "columns cc = cols" "lookup cc = Some (Suc p)" "columnPrefix cc = []"
    by (simp_all add: cc_def p_def)
  have ok2: "slice_ok h2 cols" using ok slice_ok_arrays [of cols h2 h1] arr by simp
  have el2: "slice_elems h2 cols = Some ?xs" using el slice_elems_arrays [of cols h2 h1] arr by simp
  have af2: "case sl_arr cols of None \<Rightarrow> True | Some a \<Rightarrow> a < fresh h2"
    using af fr by (auto split: option.splits)
  have pf: "p < fresh h2" by (simp add: fr p_def)
  have hc: "has_cols h2 p ?xs"
    using obj pf ok2 af2 el2 by (simp add: has_cols_def cols_cc)
  have pk: "\<forall>ptr \<in> ran m'. ptr_ok h2 cols ptr"
  proof
    fix ptr assume "ptr \<in> ran m'"
    then obtain k where "m' k = Some ptr" by (auto simp: ran_def)
    with ptrs obtain a j where "sl_arr cols = Some a" "j < sl_len cols" "ptr = ElemPtr a j"
      by blast
    with af [of a] fr show "ptr_ok h2 cols ptr" by (simp add: ptr_ok_def)
  qed
  have cok: "cc_ok h2 p"
    using obj pf ok2 af2 mp pk by (simp add: cc_ok_def cols_cc fr p_def)
  have nm: "no_memo cc" by (simp add: cc_def no_memo_def emptyCollection_def)
  from gen cok hc obj nm cols_cc(3) show ?thesis by blast
qed

section \<open>Derived subsets: properties\<close>

text \<open>Stores between which the collections made before keep their slices.\<close>

lemma cols_keptD:
  assumes k: "cols_kept h h'"
  shows "fresh h \<le> fresh h'"
    and "a < fresh h \<Longrightarrow> arrays h' a = arrays h a"
    and "a < fresh h \<Longrightarrow> objs h a = Some cc \<Longrightarrow> \<exists>cc'. objs h' a = Some cc' \<and> columns cc' = columns cc"
proof -
  show "fresh h \<le> fresh h'" using k by (simp add: cols_kept_def)
  show "arrays h' a = arrays h a" if "a < fresh h" using k that by (simp add: cols_kept_def)
  show "\<exists>cc'. objs h' a = Some cc' \<and> columns cc' = columns cc"
    if a: "a < fresh h" and o: "objs h a = Some cc"
  proof -
    from k a have "case objs h a of None \<Rightarrow> True
        | Some cc \<Rightarrow> (case objs h' a of None \<Rightarrow> False | Some cc' \<Rightarrow> columns cc' = columns cc)"
      by (simp add: cols_kept_def)
    with o have "case objs h' a of None \<Rightarrow> False | Some cc' \<Rightarrow> columns cc' = columns cc"
      by simp
    then show ?thesis by (cases "objs h' a") simp_all
  qed
qed

lemma cols_keptI:
  assumes "fresh h \<le> fresh h'"
    and "\<And>a. a < fresh h \<Longrightarrow> arrays h' a = arrays h a"
    and "\<And>a cc. a < fresh h \<Longrightarrow> objs h a = Some cc \<Longrightarrow>
           \<exists>cc'. objs h' a = Some cc' \<and> columns cc' = columns cc"
  shows "cols_kept h h'"
  unfolding cols_kept_def
proof (intro conjI allI impI)
  show "fresh h \<le> fresh h'" by (rule assms(1))
next
  fix a assume "a < fresh h"
  then show "arrays h' a = arrays h a" by (rule assms(2))
next
  fix a assume a: "a < fresh h"
  show "case objs h a of None \<Rightarrow> True
        | Some cc \<Rightarrow> (case objs h' a of None \<Rightarrow> False | Some cc' \<Rightarrow> columns cc' = columns cc)"
  proof (cases "objs h a")
    case None
    then show ?thesis by simp
  next
    case (Some cc)
    from assms(3) [OF a Some] obtain cc' where "objs h' a = Some cc'" "columns cc' = columns cc"
      by blast
    with Some show ?thesis by simp
  qed
qed

lemma cols_kept_refl: "cols_kept h h"
  by (rule cols_keptI) simp_all

lemma cols_kept_trans:
  assumes 1: "cols_kept h h1" and 2: "cols_kept h1 h2"
  shows "cols_kept h h2"
proof (rule cols_keptI)
  show "fresh h \<le> fresh h2" using cols_keptD(1) [OF 1] cols_keptD(1) [OF 2] by simp
next
  fix a assume a: "a < fresh h"
  then have a1: "a < fresh h1" using cols_keptD(1) [OF 1] by simp
  show "arrays h2 a = arrays h a"
    using cols_keptD(2) [OF 1 a] cols_keptD(2) [OF 2 a1] by simp
next
  fix a cc assume a: "a < fresh h" and o: "objs h a = Some cc"
  then have a1: "a < fresh h1" using cols_keptD(1) [OF 1] by simp
  from cols_keptD(3) [OF 1 a o] obtain c1 where c1: "objs h1 a = Some c1" "columns c1 = columns cc"
    by blast
  from cols_keptD(3) [OF 2 a1 c1(1)] obtain c2 where "objs h2 a = Some c2" "columns c2 = columns c1"
    by blast
  with c1 show "\<exists>cc'. objs h2 a = Some cc' \<and> columns cc' = columns cc" by simp
qed

lemma has_cols_kept:
  assumes hc: "has_cols h t ys" and k: "cols_kept h h'"
  shows "has_cols h' t ys"
proof -
  from has_colsD [OF hc] obtain cc where cc: "objs h t = Some cc" "t < fresh h" by blast
  from cols_keptD(3) [OF k cc(2) cc(1)] obtain cc' where
    cc': "objs h' t = Some cc'" "columns cc' = columns cc"
    by blast
  have arr: "\<forall>a<fresh h. arrays h' a = arrays h a" using cols_keptD(2) [OF k] by simp
  from hc cc(1) cc'(1) cc'(2) cols_keptD(1) [OF k] arr show ?thesis by (rule has_cols_stable)
qed

text \<open>A step that changes, below \<open>fresh\<close>, only fields of the object \<open>p\<close> other than its slice.\<close>

lemma cols_kept_frame:
  assumes f: "fresh h \<le> fresh h'"
    and fr: "\<forall>a<fresh h. arrays h' a = arrays h a \<and> (a \<noteq> p \<longrightarrow> objs h' a = objs h a)"
    and p: "objs h p = Some cc" and p': "objs h' p = Some cc'" and c: "columns cc' = columns cc"
  shows "cols_kept h h'"
proof (rule cols_keptI)
  show "fresh h \<le> fresh h'" by (rule f)
next
  fix a assume "a < fresh h"
  with fr show "arrays h' a = arrays h a" by simp
next
  fix a ca assume a: "a < fresh h" and o: "objs h a = Some ca"
  show "\<exists>cc'. objs h' a = Some cc' \<and> columns cc' = columns ca"
  proof (cases "a = p")
    case True
    with o p p' c show ?thesis by simp
  next
    case False
    with fr a o show ?thesis by simp
  qed
qed

lemma memo_shows_None [simp]: "memo_shows h None ys"
  by (simp add: memo_shows_def)

lemma memo_shows_Some [simp]: "memo_shows h (Some q) ys = has_cols h q ys"
  by (simp add: memo_shows_def)

lemma memo_shows_kept:
  assumes "memo_shows h memo ys" and "cols_kept h h'"
  shows "memo_shows h' memo ys"
proof (cases memo)
  case None
  then show ?thesis by simp
next
  case (Some q)
  with assms(1) have "has_cols h q ys" by simp
  then have "has_cols h' q ys" using assms(2) by (rule has_cols_kept)
  with Some show ?thesis by simp
qed

lemma nro_memoD:
  assumes mo: "nro_memo h p xs" and p: "objs h p = Some cc" and n: "notReadOnly cc = Some q"
  shows "q \<noteq> p \<and> has_cols h q (filter (\<lambda>c. \<not> IsReadOnly c) xs) \<and>
         (\<exists>cq. objs h q = Some cq \<and> memo_shows h (notPrimaryKeys cq) (filter writable xs))"
proof -
  from mo p n have 1: "q \<noteq> p" "has_cols h q (filter (\<lambda>c. \<not> IsReadOnly c) xs)"
    and 2: "case objs h q of None \<Rightarrow> False
            | Some cq \<Rightarrow> memo_shows h (notPrimaryKeys cq) (filter writable xs)"
    by (simp_all add: nro_memo_def)
  from 2 obtain cq where "objs h q = Some cq"
    "memo_shows h (notPrimaryKeys cq) (filter writable xs)"
    by (cases "objs h q") simp_all
  with 1 show ?thesis by simp
qed

lemma nro_memoI:
  assumes p: "objs h p = Some cc"
    and N: "\<And>q. notReadOnly cc = Some q \<Longrightarrow>
           q \<noteq> p \<and> has_cols h q (filter (\<lambda>c. \<not> IsReadOnly c) xs) \<and>
           (\<exists>cq. objs h q = Some cq \<and> memo_shows h (notPrimaryKeys cq) (filter writable xs))"
  shows "nro_memo h p xs"
proof (cases "notReadOnly cc")
  case None
  with p show ?thesis by (simp add: nro_memo_def)
next
  case (Some q)
  from N [OF Some] obtain cq where "q \<noteq> p"
    "has_cols h q (filter (\<lambda>c. \<not> IsReadOnly c) xs)" "objs h q = Some cq"
    "memo_shows h (notPrimaryKeys cq) (filter writable xs)"
    by blast
  with p Some show ?thesis by (simp add: nro_memo_def)
qed

lemma memo_ok_ready:
  assumes "memo_ok h p xs"
  shows "write_ready h p xs" and "update_ready h p xs" and "keys_memo h p xs"
proof -
  from assms have w: "write_memo h p xs" and u: "update_memo h p xs" and k: "keys_memo h p xs"
    and n: "nro_memo h p xs"
    by (simp_all add: memo_ok_def)
  show "keys_memo h p xs" by (rule k)
  from w obtain cc where p: "objs h p = Some cc"
    by (cases "objs h p") (simp_all add: write_memo_def)
  show "write_ready h p xs"
    using w n p by (cases "writeColumns cc") (simp_all add: write_ready_def write_memo_def)
  show "update_ready h p xs"
    using u n k p by (cases "updateColumns cc") (simp_all add: update_ready_def update_memo_def)
qed

lemma no_memo_memo_ok:
  assumes "objs h p = Some cc" and "no_memo cc"
  shows "memo_ok h p xs"
  using assms
  by (simp add: memo_ok_def write_memo_def update_memo_def keys_memo_def nro_memo_def no_memo_def)

lemma memo_kept_refl: "has_cols h p xs \<Longrightarrow> memo_kept h h p xs"
  by (simp add: memo_kept_def cols_kept_refl)

lemma memo_kept_trans:
  assumes "memo_kept h h1 p xs" and "memo_kept h1 h2 p xs"
  shows "memo_kept h h2 p xs"
proof -
  from assms have "cols_kept h h1" "cols_kept h1 h2" by (simp_all add: memo_kept_def)
  then have "cols_kept h h2" by (rule cols_kept_trans)
  with assms show ?thesis by (simp add: memo_kept_def)
qed

lemma memo_kept_ok:
  assumes "memo_kept h h' p xs" and "memo_ok h p xs"
  shows "has_cols h' p xs \<and> memo_ok h' p xs"
  using assms by (simp add: memo_kept_def memo_ok_def)

text \<open>
  A step that changes, below \<open>fresh\<close>, only fields of the object \<open>p\<close> other than its
  slice: a memoized subset that is up to date stays so, unless its field was changed.
\<close>

lemma frame_kept:
  assumes hc: "has_cols h p xs" and p: "objs h p = Some cc"
    and f: "fresh h \<le> fresh h'"
    and fr: "\<forall>a<fresh h. arrays h' a = arrays h a \<and> (a \<noteq> p \<longrightarrow> objs h' a = objs h a)"
    and p': "objs h' p = Some cc'" and c: "columns cc' = columns cc"
  shows "has_cols h' p xs" and "cols_kept h h'"
    and "writeColumns cc' = writeColumns cc \<Longrightarrow> write_memo h p xs \<Longrightarrow> write_memo h' p xs"
    and "updateColumns cc' = updateColumns cc \<Longrightarrow> update_memo h p xs \<Longrightarrow> update_memo h' p xs"
    and "primaryKeys cc' = primaryKeys cc \<Longrightarrow> keys_memo h p xs \<Longrightarrow> keys_memo h' p xs"
    and "notReadOnly cc' = notReadOnly cc \<Longrightarrow> nro_memo h p xs \<Longrightarrow> nro_memo h' p xs"
proof -
  show k: "cols_kept h h'" using f fr p p' c by (rule cols_kept_frame)
  show "has_cols h' p xs" using hc k by (rule has_cols_kept)
  show "write_memo h' p xs" if "writeColumns cc' = writeColumns cc" "write_memo h p xs"
    using that p p' memo_shows_kept [OF _ k, of "writeColumns cc" "filter writable xs"]
    by (simp add: write_memo_def)
  show "update_memo h' p xs" if "updateColumns cc' = updateColumns cc" "update_memo h p xs"
    using that p p'
      memo_shows_kept [OF _ k, of "updateColumns cc" "filter writable xs @ filter IsPrimaryKey xs"]
    by (simp add: update_memo_def)
  show "keys_memo h' p xs" if "primaryKeys cc' = primaryKeys cc" "keys_memo h p xs"
    using that p p' memo_shows_kept [OF _ k, of "primaryKeys cc" "filter IsPrimaryKey xs"]
    by (simp add: keys_memo_def)
  show "nro_memo h' p xs" if same: "notReadOnly cc' = notReadOnly cc" and mo: "nro_memo h p xs"
  proof (rule nro_memoI [OF p'])
    fix q assume "notReadOnly cc' = Some q"
    with same have n: "notReadOnly cc = Some q" by simp
    from nro_memoD [OF mo p n] obtain cq where qp: "q \<noteq> p"
      and hq: "has_cols h q (filter (\<lambda>c. \<not> IsReadOnly c) xs)"
      and cq: "objs h q = Some cq"
      and nest: "memo_shows h (notPrimaryKeys cq) (filter writable xs)"
      by blast
    from has_colsD [OF hq] have "q < fresh h" by blast
    with fr qp cq have cq': "objs h' q = Some cq" by simp
    have "has_cols h' q (filter (\<lambda>c. \<not> IsReadOnly c) xs)" using hq k by (rule has_cols_kept)
    moreover have "memo_shows h' (notPrimaryKeys cq) (filter writable xs)"
      using nest k by (rule memo_shows_kept)
    ultimately show "q \<noteq> p \<and> has_cols h' q (filter (\<lambda>c. \<not> IsReadOnly c) xs) \<and>
           (\<exists>cq. objs h' q = Some cq \<and> memo_shows h' (notPrimaryKeys cq) (filter writable xs))"
      using qp cq' by simp
  qed
qed

text \<open>The other subsets, computed for the first time.\<close>

lemma Autos_ok:
  assumes hc: "has_cols h p xs" and p: "objs h p = Some cc" and memo: "autos cc = None"
  shows "\<exists>q h' ccq. Autos h p = Some (q, h') \<and> fresh h \<le> q \<and> fresh h \<le> fresh h' \<and>
           (\<forall>a<fresh h. arrays h' a = arrays h a \<and> vars h' a = vars h a \<and> maps h' a = maps h a \<and>
                         (a \<noteq> p \<longrightarrow> objs h' a = objs h a)) \<and>
           objs h' p = Some (cc\<lparr>autos := Some q\<rparr>) \<and>
           has_cols h' q (filter IsAuto xs) \<and>
           objs h' q = Some ccq \<and> no_memo ccq"
proof -
  from subset_of_ok [OF hc p, of IsAuto] obtain q h1 ccq where
    sub: "subset_of h p IsAuto = Some (q, h1)"
    and pres: "preserves (fresh h) None 0 h h1" and own: "owned (fresh h) None 0 h1 q"
    and cols: "Columns h1 q = Some (filter IsAuto xs)"
    and q: "objs h1 q = Some ccq" and nm: "no_memo ccq"
    by blast
  define h' where "h' = h1\<lparr>objs := (objs h1)(p \<mapsto> cc\<lparr>autos := Some q\<rparr>)\<rparr>"
  note am = after_memo [OF hc p pres own cols q h'_def]
  have "Autos h p = Some (q, h')"
    using p memo sub am(1) [of "\<lambda>obj. obj\<lparr>autos := Some q\<rparr>"]
    by (simp add: Autos_def h'_def)
  with am(2-7) nm show ?thesis by blast
qed

lemma NotAutos_ok:
  assumes hc: "has_cols h p xs" and p: "objs h p = Some cc" and memo: "notAutos cc = None"
  shows "\<exists>q h' ccq. NotAutos h p = Some (q, h') \<and> fresh h \<le> q \<and> fresh h \<le> fresh h' \<and>
           (\<forall>a<fresh h. arrays h' a = arrays h a \<and> vars h' a = vars h a \<and> maps h' a = maps h a \<and>
                         (a \<noteq> p \<longrightarrow> objs h' a = objs h a)) \<and>
           objs h' p = Some (cc\<lparr>notAutos := Some q\<rparr>) \<and>
           has_cols h' q (filter (\<lambda>c. \<not> IsAuto c) xs) \<and>
           objs h' q = Some ccq \<and> no_memo ccq"
proof -
  from subset_of_ok [OF hc p, of "\<lambda>c. \<not> IsAuto c"] obtain q h1 ccq where
    sub: "subset_of h p (\<lambda>c. \<not> IsAuto c) = Some (q, h1)"
    and pres: "preserves (fresh h) None 0 h h1" and own: "owned (fresh h) None 0 h1 q"
    and cols: "Columns h1 q = Some (filter (\<lambda>c. \<not> IsAuto c) xs)"
    and q: "objs h1 q = Some ccq" and nm: "no_memo ccq"
    by blast
  define h' where "h' = h1\<lparr>objs := (objs h1)(p \<mapsto> cc\<lparr>notAutos := Some q\<rparr>)\<rparr>"
  note am = after_memo [OF hc p pres own cols q h'_def]
  have "NotAutos h p = Some (q, h')"
    using p memo sub am(1) [of "\<lambda>obj. obj\<lparr>notAutos := Some q\<rparr>"]
    by (simp add: NotAutos_def h'_def)
  with am(2-7) nm show ?thesis by blast
qed

lemma ReadOnly_ok:
  assumes hc: "has_cols h p xs" and p: "objs h p = Some cc" and memo: "readOnly cc = None"
  shows "\<exists>q h' ccq. ReadOnly h p = Some (q, h') \<and> fresh h \<le> q \<and> fresh h \<le> fresh h' \<and>
           (\<forall>a<fresh h. arrays h' a = arrays h a \<and> vars h' a = vars h a \<and> maps h' a = maps h a \<and>
                         (a \<noteq> p \<longrightarrow> objs h' a = objs h a)) \<and>
           objs h' p = Some (cc\<lparr>readOnly := Some q\<rparr>) \<and>
           has_cols h' q (filter IsReadOnly xs) \<and>
           objs h' q = Some ccq \<and> no_memo ccq"
proof -
  from subset_of_ok [OF hc p, of IsReadOnly] obtain q h1 ccq where
    sub: "subset_of h p IsReadOnly = Some (q, h1)"
    and pres: "preserves (fresh h) None 0 h h1" and own: "owned (fresh h) None 0 h1 q"
    and cols: "Columns h1 q = Some (filter IsReadOnly xs)"
    and q: "objs h1 q = Some ccq" and nm: "no_memo ccq"
    by blast
  define h' where "h' = h1\<lparr>objs := (objs h1)(p \<mapsto> cc\<lparr>readOnly := Some q\<rparr>)\<rparr>"
  note am = after_memo [OF hc p pres own cols q h'_def]
  have "ReadOnly h p = Some (q, h')"
    using p memo sub am(1) [of "\<lambda>obj. obj\<lparr>readOnly := Some q\<rparr>"]
    by (simp add: ReadOnly_def h'_def)
  with am(2-7) nm show ?thesis by blast
qed

text \<open>Each method keeps the columns of \<open>p\<close> and the memoized subsets that are up to date.\<close>

lemma Autos_step:
  assumes hc: "has_cols h p xs"
  shows "\<exists>q h'. Autos h p = Some (q, h') \<and> memo_kept h h' p xs"
proof -
  from has_colsD [OF hc] obtain cc where p: "objs h p = Some cc" by blast
  show ?thesis
  proof (cases "autos cc")
    case (Some m)
    then have "Autos h p = Some (m, h)" using p by (simp add: Autos_def)
    with memo_kept_refl [OF hc] show ?thesis by simp
  next
    case None
    from Autos_ok [OF hc p None] obtain q h' where
      a: "Autos h p = Some (q, h')" "fresh h \<le> fresh h'"
         "\<forall>a<fresh h. arrays h' a = arrays h a \<and> vars h' a = vars h a \<and> maps h' a = maps h a \<and>
                         (a \<noteq> p \<longrightarrow> objs h' a = objs h a)"
         "objs h' p = Some (cc\<lparr>autos := Some q\<rparr>)"
      by blast
    have fr: "\<forall>a<fresh h. arrays h' a = arrays h a \<and> (a \<noteq> p \<longrightarrow> objs h' a = objs h a)"
      using a(3) by simp
    note k = frame_kept [OF hc p a(2) fr a(4)]
    have "memo_kept h h' p xs"
      using k by (simp add: memo_kept_def)
    with a(1) show ?thesis by simp
  qed
qed

lemma NotAutos_step:
  assumes hc: "has_cols h p xs"
  shows "\<exists>q h'. NotAutos h p = Some (q, h') \<and> memo_kept h h' p xs"
proof -
  from has_colsD [OF hc] obtain cc where p: "objs h p = Some cc" by blast
  show ?thesis
  proof (cases "notAutos cc")
    case (Some m)
    then have "NotAutos h p = Some (m, h)" using p by (simp add: NotAutos_def)
    with memo_kept_refl [OF hc] show ?thesis by simp
  next
    case None
    from NotAutos_ok [OF hc p None] obtain q h' where
      a: "NotAutos h p = Some (q, h')" "fresh h \<le> fresh h'"
         "\<forall>a<fresh h. arrays h' a = arrays h a \<and> vars h' a = vars h a \<and> maps h' a = maps h a \<and>
                         (a \<noteq> p \<longrightarrow> objs h' a = objs h a)"
         "objs h' p = Some (cc\<lparr>notAutos := Some q\<rparr>)"
      by blast
    have fr: "\<forall>a<fresh h. arrays h' a = arrays h a \<and> (a \<noteq> p \<longrightarrow> objs h' a = objs h a)"
      using a(3) by simp
    note k = frame_kept [OF hc p a(2) fr a(4)]
    have "memo_kept h h' p xs"
      using k by (simp add: memo_kept_def)
    with a(1) show ?thesis by simp
  qed
qed

lemma ReadOnly_step:
  assumes hc: "has_cols h p xs"
  shows "\<exists>q h'. ReadOnly h p = Some (q, h') \<and> memo_kept h h' p xs"
proof -
  from has_colsD [OF hc] obtain cc where p: "objs h p = Some cc" by blast
  show ?thesis
  proof (cases "readOnly cc")
    case (Some m)
    then have "ReadOnly h p = Some (m, h)" using p by (simp add: ReadOnly_def)
    with memo_kept_refl [OF hc] show ?thesis by simp
  next
    case None
    from ReadOnly_ok [OF hc p None] obtain q h' where
      a: "ReadOnly h p = Some (q, h')" "fresh h \<le> fresh h'"
         "\<forall>a<fresh h. arrays h' a = arrays h a \<and> vars h' a = vars h a \<and> maps h' a = maps h a \<and>
                         (a \<noteq> p \<longrightarrow> objs h' a = objs h a)"
         "objs h' p = Some (cc\<lparr>readOnly := Some q\<rparr>)"
      by blast
    have fr: "\<forall>a<fresh h. arrays h' a = arrays h a \<and> (a \<noteq> p \<longrightarrow> objs h' a = objs h a)"
      using a(3) by simp
    note k = frame_kept [OF hc p a(2) fr a(4)]
    have "memo_kept h h' p xs"
      using k by (simp add: memo_kept_def)
    with a(1) show ?thesis by simp
  qed
qed

lemma NotPrimaryKeys_step:
  assumes hc: "has_cols h p xs"
  shows "\<exists>q h'. NotPrimaryKeys h p = Some (q, h') \<and> memo_kept h h' p xs"
proof -
  from has_colsD [OF hc] obtain cc where p: "objs h p = Some cc" by blast
  show ?thesis
  proof (cases "notPrimaryKeys cc")
    case (Some m)
    then have "NotPrimaryKeys h p = Some (m, h)" using p by (simp add: NotPrimaryKeys_def)
    with memo_kept_refl [OF hc] show ?thesis by simp
  next
    case None
    from NotPrimaryKeys_ok [OF hc p None] obtain q h' where
      a: "NotPrimaryKeys h p = Some (q, h')" "fresh h \<le> fresh h'"
         "\<forall>a<fresh h. arrays h' a = arrays h a \<and> vars h' a = vars h a \<and> maps h' a = maps h a \<and>
                         (a \<noteq> p \<longrightarrow> objs h' a = objs h a)"
         "objs h' p = Some (cc\<lparr>notPrimaryKeys := Some q\<rparr>)"
      by blast
    have fr: "\<forall>a<fresh h. arrays h' a = arrays h a \<and> (a \<noteq> p \<longrightarrow> objs h' a = objs h a)"
      using a(3) by simp
    note k = frame_kept [OF hc p a(2) fr a(4)]
    have "memo_kept h h' p xs"
      using k by (simp add: memo_kept_def)
    with a(1) show ?thesis by simp
  qed
qed

lemma NotReadOnly_step:
  assumes hc: "has_cols h p xs"
  shows "\<exists>q h' cc'. NotReadOnly h p = Some (q, h') \<and> memo_kept h h' p xs \<and>
           objs h' p = Some cc' \<and> notReadOnly cc' = Some q"
proof -
  from has_colsD [OF hc] obtain cc where p: "objs h p = Some cc" and pf: "p < fresh h" by blast
  show ?thesis
  proof (cases "notReadOnly cc")
    case (Some m)
    then have "NotReadOnly h p = Some (m, h)" using p by (simp add: NotReadOnly_def)
    with memo_kept_refl [OF hc] p Some show ?thesis by simp
  next
    case None
    from NotReadOnly_ok [OF hc p None] obtain q h' ccq where
      a: "NotReadOnly h p = Some (q, h')" "fresh h \<le> fresh h'"
         "\<forall>a<fresh h. arrays h' a = arrays h a \<and> vars h' a = vars h a \<and> maps h' a = maps h a \<and>
                         (a \<noteq> p \<longrightarrow> objs h' a = objs h a)"
         "objs h' p = Some (cc\<lparr>notReadOnly := Some q\<rparr>)"
      and b: "fresh h \<le> q" "has_cols h' q (filter (\<lambda>c. \<not> IsReadOnly c) xs)"
         "objs h' q = Some ccq" "no_memo ccq"
      by blast
    have fr: "\<forall>a<fresh h. arrays h' a = arrays h a \<and> (a \<noteq> p \<longrightarrow> objs h' a = objs h a)"
      using a(3) by simp
    note k = frame_kept [OF hc p a(2) fr a(4)]
    have qp: "q \<noteq> p" using pf b(1) by simp
    have nq: "notPrimaryKeys ccq = None" using b(4) by (simp add: no_memo_def)
    have "nro_memo h' p xs"
      using a(4) qp b(2,3) nq by (simp add: nro_memo_def)
    with k have "memo_kept h h' p xs" by (simp add: memo_kept_def)
    with a(1,4) show ?thesis by simp
  qed
qed

lemma PrimaryKeys_step:
  assumes hc: "has_cols h p xs"
  shows "\<exists>k h'. PrimaryKeys h p = Some (k, h') \<and> memo_kept h h' p xs \<and>
           (keys_memo h p xs \<longrightarrow> has_cols h' k (filter IsPrimaryKey xs))"
proof -
  from has_colsD [OF hc] obtain cc where p: "objs h p = Some cc" and pf: "p < fresh h" by blast
  show ?thesis
  proof (cases "primaryKeys cc")
    case (Some m)
    then have "PrimaryKeys h p = Some (m, h)" using p by (simp add: PrimaryKeys_def)
    moreover have "keys_memo h p xs \<longrightarrow> has_cols h m (filter IsPrimaryKey xs)"
      using p Some by (simp add: keys_memo_def)
    ultimately show ?thesis using memo_kept_refl [OF hc] by simp
  next
    case None
    from PrimaryKeys_ok [OF hc p None] obtain q h' where
      a: "PrimaryKeys h p = Some (q, h')" "fresh h \<le> fresh h'"
         "\<forall>a<fresh h. arrays h' a = arrays h a \<and> vars h' a = vars h a \<and> maps h' a = maps h a \<and>
                         (a \<noteq> p \<longrightarrow> objs h' a = objs h a)"
         "objs h' p = Some (cc\<lparr>primaryKeys := Some q\<rparr>)"
      and b: "has_cols h' q (filter IsPrimaryKey xs)"
      by blast
    have fr: "\<forall>a<fresh h. arrays h' a = arrays h a \<and> (a \<noteq> p \<longrightarrow> objs h' a = objs h a)"
      using a(3) by simp
    note k = frame_kept [OF hc p a(2) fr a(4)]
    have "keys_memo h' p xs" using a(4) b by (simp add: keys_memo_def)
    with k have "memo_kept h h' p xs" by (simp add: memo_kept_def)
    with a(1) b show ?thesis by simp
  qed
qed

text \<open>\<^verbatim>\<open>NotPrimaryKeys\<close> called on the memoized \<^verbatim>\<open>NotReadOnly\<close> of \<open>p\<close>.\<close>

lemma NotPrimaryKeys_nested_step:
  assumes hc: "has_cols h p xs" and mo: "nro_memo h p xs" and p: "objs h p = Some cc"
    and n: "notReadOnly cc = Some q"
  shows "\<exists>r h'. NotPrimaryKeys h q = Some (r, h') \<and> memo_kept h h' p xs \<and>
           has_cols h' r (filter writable xs)"
proof -
  from nro_memoD [OF mo p n] obtain cq where qp: "q \<noteq> p"
    and hq: "has_cols h q (filter (\<lambda>c. \<not> IsReadOnly c) xs)"
    and cq: "objs h q = Some cq"
    and nest: "memo_shows h (notPrimaryKeys cq) (filter writable xs)"
    by blast
  show ?thesis
  proof (cases "notPrimaryKeys cq")
    case (Some r)
    then have "NotPrimaryKeys h q = Some (r, h)" using cq by (simp add: NotPrimaryKeys_def)
    moreover have "has_cols h r (filter writable xs)" using nest Some by simp
    ultimately show ?thesis using memo_kept_refl [OF hc] by simp
  next
    case None
    from NotPrimaryKeys_ok [OF hq cq None] obtain r h' where
      a: "NotPrimaryKeys h q = Some (r, h')" "fresh h \<le> fresh h'"
         "\<forall>a<fresh h. arrays h' a = arrays h a \<and> vars h' a = vars h a \<and> maps h' a = maps h a \<and>
                         (a \<noteq> q \<longrightarrow> objs h' a = objs h a)"
         "objs h' q = Some (cq\<lparr>notPrimaryKeys := Some r\<rparr>)"
      and b: "has_cols h' r (filter (\<lambda>c. \<not> IsPrimaryKey c) (filter (\<lambda>c. \<not> IsReadOnly c) xs))"
      by blast
    have fr: "\<forall>a<fresh h. arrays h' a = arrays h a \<and> (a \<noteq> q \<longrightarrow> objs h' a = objs h a)"
      using a(3) by simp
    have r: "has_cols h' r (filter writable xs)" using b by (simp only: filter_writable)
    have k: "cols_kept h h'" using a(2) fr cq a(4) by (rule cols_kept_frame) simp
    have hp: "has_cols h' p xs" using hc k by (rule has_cols_kept)
    from has_colsD [OF hc] have "p < fresh h" by blast
    with fr qp p have p': "objs h' p = Some cc" by simp
    have W: "write_memo h' p xs" if "write_memo h p xs"
      using that p p' memo_shows_kept [OF _ k, of "writeColumns cc" "filter writable xs"]
      by (simp add: write_memo_def)
    have U: "update_memo h' p xs" if "update_memo h p xs"
      using that p p'
        memo_shows_kept [OF _ k, of "updateColumns cc" "filter writable xs @ filter IsPrimaryKey xs"]
      by (simp add: update_memo_def)
    have K: "keys_memo h' p xs" if "keys_memo h p xs"
      using that p p' memo_shows_kept [OF _ k, of "primaryKeys cc" "filter IsPrimaryKey xs"]
      by (simp add: keys_memo_def)
    have "has_cols h' q (filter (\<lambda>c. \<not> IsReadOnly c) xs)" using hq k by (rule has_cols_kept)
    then have N: "nro_memo h' p xs"
      using p' n qp a(4) r by (simp add: nro_memo_def)
    have "memo_kept h h' p xs" using hp k W U K N by (simp add: memo_kept_def)
    with a(1) r show ?thesis by simp
  qed
qed

lemma NotReadOnly_NotPrimaryKeys_step:
  assumes hc: "has_cols h p xs" and mo: "nro_memo h p xs"
  shows "\<exists>q ha r hb. NotReadOnly h p = Some (q, ha) \<and> NotPrimaryKeys ha q = Some (r, hb) \<and>
           memo_kept h hb p xs \<and> has_cols hb r (filter writable xs)"
proof -
  from NotReadOnly_step [OF hc] obtain q ha cc' where
    a: "NotReadOnly h p = Some (q, ha)" "memo_kept h ha p xs"
       "objs ha p = Some cc'" "notReadOnly cc' = Some q"
    by blast
  from a(2) mo have ha: "has_cols ha p xs" "nro_memo ha p xs" by (simp_all add: memo_kept_def)
  from NotPrimaryKeys_nested_step [OF ha a(3,4)] obtain r hb where
    b: "NotPrimaryKeys ha q = Some (r, hb)" "memo_kept ha hb p xs"
       "has_cols hb r (filter writable xs)"
    by blast
  have "memo_kept h hb p xs" using a(2) b(2) by (rule memo_kept_trans)
  with a(1) b(1,3) show ?thesis by blast
qed

text \<open>Storing a subset that is up to date in its field.\<close>

lemma store_writeColumns:
  assumes hc: "has_cols h p xs" and w: "has_cols h w (filter writable xs)"
  shows "\<exists>h'. upd_obj h p (\<lambda>obj. obj\<lparr>writeColumns := Some w\<rparr>) = Some h' \<and>
           memo_kept h h' p xs \<and> write_memo h' p xs \<and>
           has_cols h' w (filter writable xs) \<and> WriteColumns h' p = Some (w, h')"
proof -
  from has_colsD [OF hc] obtain cc where p: "objs h p = Some cc" by blast
  define c1 where "c1 = cc\<lparr>writeColumns := Some w\<rparr>"
  define h' where "h' = h\<lparr>objs := (objs h)(p \<mapsto> c1)\<rparr>"
  have u: "upd_obj h p (\<lambda>obj. obj\<lparr>writeColumns := Some w\<rparr>) = Some h'"
    using upd_obj_Some [OF p] by (simp add: h'_def c1_def)
  have f: "fresh h \<le> fresh h'" by (simp add: h'_def)
  have fr: "\<forall>a<fresh h. arrays h' a = arrays h a \<and> (a \<noteq> p \<longrightarrow> objs h' a = objs h a)"
    by (simp add: h'_def)
  have p': "objs h' p = Some c1" by (simp add: h'_def)
  have c: "columns c1 = columns cc" by (simp add: c1_def)
  note k = frame_kept [OF hc p f fr p' c]
  have w': "has_cols h' w (filter writable xs)" using w k(2) by (rule has_cols_kept)
  have wm: "write_memo h' p xs" using p' w' by (simp add: write_memo_def c1_def)
  have "memo_kept h h' p xs" using k wm by (simp add: memo_kept_def c1_def)
  moreover have "WriteColumns h' p = Some (w, h')"
    using p' by (simp add: WriteColumns_def c1_def)
  ultimately show ?thesis using u w' wm by simp
qed

lemma store_updateColumns:
  assumes hc: "has_cols h p xs"
    and u: "has_cols h u (filter writable xs @ filter IsPrimaryKey xs)"
  shows "\<exists>h'. upd_obj h p (\<lambda>obj. obj\<lparr>updateColumns := Some u\<rparr>) = Some h' \<and>
           memo_kept h h' p xs \<and> update_memo h' p xs \<and>
           has_cols h' u (filter writable xs @ filter IsPrimaryKey xs) \<and>
           UpdateColumns h' p = Some (u, h')"
proof -
  from has_colsD [OF hc] obtain cc where p: "objs h p = Some cc" by blast
  define c1 where "c1 = cc\<lparr>updateColumns := Some u\<rparr>"
  define h' where "h' = h\<lparr>objs := (objs h)(p \<mapsto> c1)\<rparr>"
  have uo: "upd_obj h p (\<lambda>obj. obj\<lparr>updateColumns := Some u\<rparr>) = Some h'"
    using upd_obj_Some [OF p] by (simp add: h'_def c1_def)
  have f: "fresh h \<le> fresh h'" by (simp add: h'_def)
  have fr: "\<forall>a<fresh h. arrays h' a = arrays h a \<and> (a \<noteq> p \<longrightarrow> objs h' a = objs h a)"
    by (simp add: h'_def)
  have p': "objs h' p = Some c1" by (simp add: h'_def)
  have c: "columns c1 = columns cc" by (simp add: c1_def)
  note k = frame_kept [OF hc p f fr p' c]
  have u': "has_cols h' u (filter writable xs @ filter IsPrimaryKey xs)"
    using u k(2) by (rule has_cols_kept)
  have um: "update_memo h' p xs" using p' u' by (simp add: update_memo_def c1_def)
  have "memo_kept h h' p xs" using k um by (simp add: memo_kept_def c1_def)
  moreover have "UpdateColumns h' p = Some (u, h')"
    using p' by (simp add: UpdateColumns_def c1_def)
  ultimately show ?thesis using uo u' um by simp
qed

lemma WriteColumns_step:
  assumes hc: "has_cols h p xs" and rd: "write_ready h p xs"
  shows "\<exists>w h'. WriteColumns h p = Some (w, h') \<and> memo_kept h h' p xs \<and> write_memo h' p xs \<and>
           has_cols h' w (filter writable xs) \<and> WriteColumns h' p = Some (w, h')"
proof -
  from has_colsD [OF hc] obtain cc where p: "objs h p = Some cc" by blast
  show ?thesis
  proof (cases "writeColumns cc")
    case (Some w)
    then have call: "WriteColumns h p = Some (w, h)" using p by (simp add: WriteColumns_def)
    from rd p Some have w: "has_cols h w (filter writable xs)" by (simp add: write_ready_def)
    then have "write_memo h p xs" using p Some by (simp add: write_memo_def)
    with call w memo_kept_refl [OF hc] show ?thesis by simp
  next
    case None
    with rd p have mo: "nro_memo h p xs" by (simp add: write_ready_def)
    from NotReadOnly_NotPrimaryKeys_step [OF hc mo] obtain q ha r hb where
      s: "NotReadOnly h p = Some (q, ha)" "NotPrimaryKeys ha q = Some (r, hb)"
         "memo_kept h hb p xs" "has_cols hb r (filter writable xs)"
      by blast
    from s(3) have hb: "has_cols hb p xs" by (simp add: memo_kept_def)
    from store_writeColumns [OF hb s(4)] obtain h' where
      t: "upd_obj hb p (\<lambda>obj. obj\<lparr>writeColumns := Some r\<rparr>) = Some h'"
         "memo_kept hb h' p xs" "write_memo h' p xs"
         "has_cols h' r (filter writable xs)" "WriteColumns h' p = Some (r, h')"
      by blast
    have "WriteColumns h p = Some (r, h')"
      using p None s(1,2) t(1) by (simp add: WriteColumns_def)
    moreover have "memo_kept h h' p xs" using s(3) t(2) by (rule memo_kept_trans)
    ultimately show ?thesis using t(3,4,5) by simp
  qed
qed

lemma UpdateColumns_step:
  assumes hc: "has_cols h p xs" and rd: "update_ready h p xs"
  shows "\<exists>u h'. UpdateColumns h p = Some (u, h') \<and> memo_kept h h' p xs \<and> update_memo h' p xs \<and>
           has_cols h' u (filter writable xs @ filter IsPrimaryKey xs) \<and>
           UpdateColumns h' p = Some (u, h')"
proof -
  from has_colsD [OF hc] obtain cc where p: "objs h p = Some cc" by blast
  show ?thesis
  proof (cases "updateColumns cc")
    case (Some u)
    then have call: "UpdateColumns h p = Some (u, h)" using p by (simp add: UpdateColumns_def)
    from rd p Some have u: "has_cols h u (filter writable xs @ filter IsPrimaryKey xs)"
      by (simp add: update_ready_def)
    then have "update_memo h p xs" using p Some by (simp add: update_memo_def)
    with call u memo_kept_refl [OF hc] show ?thesis by simp
  next
    case None
    with rd p have mo: "nro_memo h p xs" and km: "keys_memo h p xs"
      by (simp_all add: update_ready_def)
    from NotReadOnly_NotPrimaryKeys_step [OF hc mo] obtain q ha r hb where
      s: "NotReadOnly h p = Some (q, ha)" "NotPrimaryKeys ha q = Some (r, hb)"
         "memo_kept h hb p xs" "has_cols hb r (filter writable xs)"
      by blast
    from s(3) km have hb: "has_cols hb p xs" "keys_memo hb p xs" by (simp_all add: memo_kept_def)
    from PrimaryKeys_step [OF hb(1)] hb(2) obtain pk hc' where
      k: "PrimaryKeys hb p = Some (pk, hc')" "memo_kept hb hc' p xs"
         "has_cols hc' pk (filter IsPrimaryKey xs)"
      by blast
    from k(2) have hcp: "has_cols hc' p xs" and kc: "cols_kept hb hc'"
      by (simp_all add: memo_kept_def)
    have r: "has_cols hc' r (filter writable xs)" using s(4) kc by (rule has_cols_kept)
    from ConcatWith_ok [OF r k(3)] obtain u hd where
      c: "ConcatWith hc' r pk = Some (u, hd)" "fresh hc' \<le> fresh hd"
         "\<forall>a<fresh hc'. arrays hd a = arrays hc' a \<and> vars hd a = vars hc' a \<and>
                         maps hd a = maps hc' a \<and> objs hd a = objs hc' a"
         "has_cols hd u (filter writable xs @ filter IsPrimaryKey xs)"
      by blast
    from has_colsD [OF hcp] obtain cb where cb: "objs hc' p = Some cb" "p < fresh hc'" by blast
    have fr: "\<forall>a<fresh hc'. arrays hd a = arrays hc' a \<and> (a \<noteq> p \<longrightarrow> objs hd a = objs hc' a)"
      using c(3) by simp
    have od: "objs hd p = Some cb" using c(3) cb by simp
    note fk = frame_kept [OF hcp cb(1) c(2) fr od]
    have d: "memo_kept hc' hd p xs" using fk by (simp add: memo_kept_def)
    then have hd: "has_cols hd p xs" by (simp add: memo_kept_def)
    from store_updateColumns [OF hd c(4)] obtain h' where
      t: "upd_obj hd p (\<lambda>obj. obj\<lparr>updateColumns := Some u\<rparr>) = Some h'"
         "memo_kept hd h' p xs" "update_memo h' p xs"
         "has_cols h' u (filter writable xs @ filter IsPrimaryKey xs)"
         "UpdateColumns h' p = Some (u, h')"
      by blast
    have "UpdateColumns h p = Some (u, h')"
      using p None s(1,2) k(1) c(1) t(1) by (simp add: UpdateColumns_def)
    moreover have "memo_kept h h' p xs"
      using memo_kept_trans [OF memo_kept_trans [OF memo_kept_trans [OF s(3) k(2)] d] t(2)] .
    ultimately show ?thesis using t(3,4,5) by simp
  qed
qed

lemma run_call_step:
  assumes hc: "has_cols h p xs" and mo: "memo_ok h p xs"
  shows "\<exists>q h'. run_call h p m = Some (q, h') \<and> has_cols h' p xs \<and> memo_ok h' p xs"
proof (cases m)
  case CallAutos
  with Autos_step [OF hc] memo_kept_ok [OF _ mo] show ?thesis by auto
next
  case CallNotAutos
  with NotAutos_step [OF hc] memo_kept_ok [OF _ mo] show ?thesis by auto
next
  case CallReadOnly
  with ReadOnly_step [OF hc] memo_kept_ok [OF _ mo] show ?thesis by auto
next
  case CallNotReadOnly
  from NotReadOnly_step [OF hc] obtain q h' where
    "NotReadOnly h p = Some (q, h')" "memo_kept h h' p xs"
    by blast
  with CallNotReadOnly memo_kept_ok [OF _ mo] show ?thesis by auto
next
  case CallPrimaryKeys
  from PrimaryKeys_step [OF hc] obtain q h' where
    "PrimaryKeys h p = Some (q, h')" "memo_kept h h' p xs"
    by blast
  with CallPrimaryKeys memo_kept_ok [OF _ mo] show ?thesis by auto
next
  case CallNotPrimaryKeys
  with NotPrimaryKeys_step [OF hc] memo_kept_ok [OF _ mo] show ?thesis by auto
next
  case CallWriteColumns
  from WriteColumns_step [OF hc memo_ok_ready(1) [OF mo]] obtain q h' where
    "WriteColumns h p = Some (q, h')" "memo_kept h h' p xs"
    by blast
  with CallWriteColumns memo_kept_ok [OF _ mo] show ?thesis by auto
next
  case CallUpdateColumns
  from UpdateColumns_step [OF hc memo_ok_ready(2) [OF mo]] obtain q h' where
    "UpdateColumns h p = Some (q, h')" "memo_kept h h' p xs"
    by blast
  with CallUpdateColumns memo_kept_ok [OF _ mo] show ?thesis by auto
qed

lemma run_calls_steps:
  assumes "has_cols h p xs" and "memo_ok h p xs"
  shows "\<exists>h'. run_calls h p ms = Some h' \<and> has_cols h' p xs \<and> memo_ok h' p xs"
  using assms
proof (induction ms arbitrary: h)
  case Nil
  then show ?case by simp
next
  case (Cons m ms)
  from run_call_step [OF Cons.prems, of m] obtain q h1 where
    s: "run_call h p m = Some (q, h1)" "has_cols h1 p xs" "memo_ok h1 p xs"
    by blast
  from Cons.IH [OF s(2,3)] s(1) show ?case by simp
qed

text \<open>
  Claim C5, as the code has it. Take a collection \<open>p\<close> that was made before, whose
  slice is well formed and shows the columns \<open>xs\<close>. If the memoized subsets that
  \<^verbatim>\<open>WriteColumns()\<close> will read are in order (its own field when that is set, and
  otherwise the field \<^verbatim>\<open>notReadOnly\<close> and the field \<^verbatim>\<open>notPrimaryKeys\<close> of the collection
  held there), then \<^verbatim>\<open>WriteColumns()\<close> returns a collection whose columns are the
  columns of \<open>xs\<close> that are neither read-only nor primary keys, in the order of \<open>xs\<close>.
  If those that \<^verbatim>\<open>UpdateColumns()\<close> will read are in order (its own field when that is
  set, and otherwise the same two fields and the field \<^verbatim>\<open>primaryKeys\<close>), then
  \<^verbatim>\<open>UpdateColumns()\<close> returns these columns followed by the primary keys, which are
  the columns that \<^verbatim>\<open>PrimaryKeys()\<close> returns when its field is in order. Either result
  is kept in its field: the next call returns the same collection and computes nothing.
  The columns of \<open>p\<close> stay as they were. A collection of which no subset has been
  computed has all its memoized subsets in order, and the eight subset methods keep
  them so: after any sequence \<open>ms\<close> of calls of these methods on \<open>p\<close>, the above applies
  again.
\<close>

theorem WriteColumns_UpdateColumns_up_to_date:
  assumes hc: "has_cols h p xs"
  shows "(write_ready h p xs \<longrightarrow>
            (\<exists>w h1. WriteColumns h p = Some (w, h1) \<and>
               Columns h1 w = Some (filter writable xs) \<and>
               Columns h1 p = Some xs \<and> WriteColumns h1 p = Some (w, h1))) \<and>
         (update_ready h p xs \<longrightarrow>
            (\<exists>u h2. UpdateColumns h p = Some (u, h2) \<and>
               Columns h2 u = Some (filter writable xs @ filter IsPrimaryKey xs) \<and>
               Columns h2 p = Some xs \<and> UpdateColumns h2 p = Some (u, h2))) \<and>
         (keys_memo h p xs \<longrightarrow>
            (\<exists>k h3. PrimaryKeys h p = Some (k, h3) \<and>
               Columns h3 k = Some (filter IsPrimaryKey xs))) \<and>
         (memo_ok h p xs \<longrightarrow>
            (\<exists>h0. run_calls h p ms = Some h0 \<and> has_cols h0 p xs \<and> memo_ok h0 p xs \<and>
               write_ready h0 p xs \<and> update_ready h0 p xs \<and> keys_memo h0 p xs))"
proof (intro conjI impI)
  assume "write_ready h p xs"
  from WriteColumns_step [OF hc this] obtain w h1 where
    w: "WriteColumns h p = Some (w, h1)" "memo_kept h h1 p xs"
       "has_cols h1 w (filter writable xs)" "WriteColumns h1 p = Some (w, h1)"
    by blast
  from w(2) have "has_cols h1 p xs" by (simp add: memo_kept_def)
  with w(1,4) has_cols_Columns [OF w(3)] has_cols_Columns [of h1 p xs]
  show "\<exists>w h1. WriteColumns h p = Some (w, h1) \<and>
               Columns h1 w = Some (filter writable xs) \<and>
               Columns h1 p = Some xs \<and> WriteColumns h1 p = Some (w, h1)"
    by blast
next
  assume "update_ready h p xs"
  from UpdateColumns_step [OF hc this] obtain u h2 where
    u: "UpdateColumns h p = Some (u, h2)" "memo_kept h h2 p xs"
       "has_cols h2 u (filter writable xs @ filter IsPrimaryKey xs)"
       "UpdateColumns h2 p = Some (u, h2)"
    by blast
  from u(2) have "has_cols h2 p xs" by (simp add: memo_kept_def)
  with u(1,4) has_cols_Columns [OF u(3)] has_cols_Columns [of h2 p xs]
  show "\<exists>u h2. UpdateColumns h p = Some (u, h2) \<and>
               Columns h2 u = Some (filter writable xs @ filter IsPrimaryKey xs) \<and>
               Columns h2 p = Some xs \<and> UpdateColumns h2 p = Some (u, h2)"
    by blast
next
  assume km: "keys_memo h p xs"
  from PrimaryKeys_step [OF hc] km obtain k h3 where
    "PrimaryKeys h p = Some (k, h3)" "has_cols h3 k (filter IsPrimaryKey xs)"
    by blast
  with has_cols_Columns [of h3 k "filter IsPrimaryKey xs"]
  show "\<exists>k h3. PrimaryKeys h p = Some (k, h3) \<and> Columns h3 k = Some (filter IsPrimaryKey xs)"
    by blast
next
  assume mo: "memo_ok h p xs"
  from run_calls_steps [OF hc mo, of ms] obtain h0 where
    r: "run_calls h p ms = Some h0" "has_cols h0 p xs" "memo_ok h0 p xs"
    by blast
  with memo_ok_ready [OF r(3)]
  show "\<exists>h0. run_calls h p ms = Some h0 \<and> has_cols h0 p xs \<and> memo_ok h0 p xs \<and>
               write_ready h0 p xs \<and> update_ready h0 p xs \<and> keys_memo h0 p xs"
    by blast
qed

lemma myStruct_write_columns:
  "map ColumnName (filter writable (List.map_filter (field_column ''my_struct'')
     (enumerate 0
       [StructField ''PrimaryKeyCol'' (Basic ''int'') ''primary_key_column,pk,serial'' False,
        StructField ''AutoCol'' (Basic ''string'') ''auto_column,auto'' False,
        StructField ''InferredName'' (Basic ''string'') [] False,
        StructField ''Excluded'' (Basic ''string'') ''-'' False,
        StructField ''NullableCol'' (Basic ''string'') ''nullable,nullable'' False,
        StructField ''InferredWithFlags'' (Basic ''string'') '',readonly'' False,
        StructField ''BigIntColumn'' (Basic ''int64'') ''big_int'' False,
        StructField ''PointerColumn'' (Ptr (Basic ''int'')) ''pointer_col'' False,
        StructField ''JSONColumn'' subStruct ''json_col,json'' False]))) =
   [''auto_column'', ''inferredname'', ''nullable'', ''big_int'', ''pointer_col'', ''json_col'']"
  by code_simp

lemma myStruct_primary_keys:
  "map ColumnName (filter IsPrimaryKey (List.map_filter (field_column ''my_struct'')
     (enumerate 0
       [StructField ''PrimaryKeyCol'' (Basic ''int'') ''primary_key_column,pk,serial'' False,
        StructField ''AutoCol'' (Basic ''string'') ''auto_column,auto'' False,
        StructField ''InferredName'' (Basic ''string'') [] False,
        StructField ''Excluded'' (Basic ''string'') ''-'' False,
        StructField ''NullableCol'' (Basic ''string'') ''nullable,nullable'' False,
        StructField ''InferredWithFlags'' (Basic ''string'') '',readonly'' False,
        StructField ''BigIntColumn'' (Basic ''int64'') ''big_int'' False,
        StructField ''PointerColumn'' (Ptr (Basic ''int'')) ''pointer_col'' False,
        StructField ''JSONColumn'' subStruct ''json_col,json'' False]))) =
   [''primary_key_column'']"
  by code_simp

theorem WriteColumns_UpdateColumns_up_to_date_witness:
  "\<exists>p h xs h0 w h1 u h2.
     generateColumnCollectionForType testTableName heap0 myStruct = Some (p, h) \<and>
     has_cols h p xs \<and> memo_ok h p xs \<and>
     run_calls h p [CallReadOnly, CallWriteColumns, CallAutos] = Some h0 \<and>
     has_cols h0 p xs \<and> write_ready h0 p xs \<and> update_ready h0 p xs \<and>
     WriteColumns h0 p = Some (w, h1) \<and>
     map_option (map ColumnName) (Columns h1 w) =
       Some [''auto_column'', ''inferredname'', ''nullable'', ''big_int'', ''pointer_col'',
             ''json_col''] \<and>
     UpdateColumns h0 p = Some (u, h2) \<and>
     map_option (map ColumnName) (Columns h2 u) =
       Some [''auto_column'', ''inferredname'', ''nullable'', ''big_int'', ''pointer_col'',
             ''json_col'', ''primary_key_column'']"
proof -
  let ?flds = "[StructField ''PrimaryKeyCol'' (Basic ''int'') ''primary_key_column,pk,serial'' False,
        StructField ''AutoCol'' (Basic ''string'') ''auto_column,auto'' False,
        StructField ''InferredName'' (Basic ''string'') [] False,
        StructField ''Excluded'' (Basic ''string'') ''-'' False,
        StructField ''NullableCol'' (Basic ''string'') ''nullable,nullable'' False,
        StructField ''InferredWithFlags'' (Basic ''string'') '',readonly'' False,
        StructField ''BigIntColumn'' (Basic ''int64'') ''big_int'' False,
        StructField ''PointerColumn'' (Ptr (Basic ''int'')) ''pointer_col'' False,
        StructField ''JSONColumn'' subStruct ''json_col,json'' False]"
  let ?xs = "List.map_filter (field_column ''my_struct'') (enumerate 0 ?flds)"
  let ?ms = "[CallReadOnly, CallWriteColumns, CallAutos]"
  have t: "strip_ptr myStruct = Struct ''db.myStruct'' ?flds" by (simp add: myStruct_def)
  have tn: "testTableName (Struct ''db.myStruct'' ?flds) = ''my_struct''"
    by (simp add: testTableName_def myStruct_def)
  from generate_cc_ok [OF t, of testTableName heap0] obtain p h cc where
    g: "generateColumnCollectionForType testTableName heap0 myStruct = Some (p, h)"
    and hc: "has_cols h p ?xs" and o: "objs h p = Some cc" and nm: "no_memo cc"
    unfolding tn by blast
  have mo: "memo_ok h p ?xs" using o nm by (rule no_memo_memo_ok)
  from WriteColumns_UpdateColumns_up_to_date [OF hc, of ?ms] mo obtain h0 where
    r: "run_calls h p ?ms = Some h0" and hc0: "has_cols h0 p ?xs"
    and wr: "write_ready h0 p ?xs" and ur: "update_ready h0 p ?xs"
    by blast
  from WriteColumns_UpdateColumns_up_to_date [OF hc0, of ?ms] wr ur obtain w h1 u h2 where
    w: "WriteColumns h0 p = Some (w, h1)" "Columns h1 w = Some (filter writable ?xs)"
    and u: "UpdateColumns h0 p = Some (u, h2)"
       "Columns h2 u = Some (filter writable ?xs @ filter IsPrimaryKey ?xs)"
    by blast
  have nw: "map_option (map ColumnName) (Columns h1 w) =
       Some [''auto_column'', ''inferredname'', ''nullable'', ''big_int'', ''pointer_col'',
             ''json_col'']"
    unfolding w(2) by (simp only: option.map myStruct_write_columns)
  have nu: "map_option (map ColumnName) (Columns h2 u) =
       Some [''auto_column'', ''inferredname'', ''nullable'', ''big_int'', ''pointer_col'',
             ''json_col'', ''primary_key_column'']"
    unfolding u(2)
    by (simp only: option.map map_append myStruct_write_columns myStruct_primary_keys append.simps)
  from g hc mo r hc0 wr ur w(1) nw u(1) nu show ?thesis
    by (intro exI [of _ p] exI [of _ h] exI [of _ ?xs] exI [of _ h0] exI [of _ w]
          exI [of _ h1] exI [of _ u] exI [of _ h2] conjI)
qed

text \<open>
  Claim C5 as stated speaks of every collection. A collection that has answered
  \<^verbatim>\<open>WriteColumns()\<close> once answers from its field ever after: when a column that is
  neither read-only nor a primary key is added afterwards, \<^verbatim>\<open>WriteColumns()\<close> still
  returns the earlier subset, without the new column.
\<close>

theorem WriteColumns_stale_after_Add:
  "write_add_write = Some (Some [fooColumn], Some [fooColumn, extraColumn]) \<and>
   writable extraColumn"
  by code_simp

section \<open>Copies: properties\<close>




end
